theory Spec2Isabelle
  imports Main
begin

section \<open>The dependency resolver of the plugin registry\<close>

text \<open>
  A shallow embedding of \<^verbatim>\<open>scripts/dependency-resolver.py\<close>: the version
  constraint matcher (class \<^verbatim>\<open>VersionConstraint\<close>) and the resolver (class
  \<^verbatim>\<open>DependencyResolver\<close>).

  Python strings are modelled as \<^typ>\<open>string\<close>; a character is a code point below 256.
  Python integers are \<^typ>\<open>int\<close>. A function that can raise returns a sum, with the
  exception on the left.
\<close>

subsection \<open>Exceptions\<close>

text \<open>
  \<^verbatim>\<open>ValueError\<close> carries its message, which \<^verbatim>\<open>validate_dependencies\<close>
  formats into an error line. \<^verbatim>\<open>RecursionError\<close> is what the interpreter raises
  when the recursion of \<^verbatim>\<open>dfs\<close> exceeds its depth limit.
\<close>

datatype py_error =
    ValueError string
  | KeyError string
  | IndexError
  | RecursionError

subsection \<open>Built-in string operations\<close>

definition LF :: char where
  "LF = CHR 0x0A"

definition SQ :: char where
  "SQ = CHR 0x27"

definition DQ :: char where
  "DQ = CHR 0x22"

definition BSL :: char where
  "BSL = CHR 0x5C"

text \<open>\<^verbatim>\<open>s.split('.')\<close>: the fields between the dots; never an empty list.\<close>

fun split_dot :: "string \<Rightarrow> string list" where
  "split_dot [] = [[]]"
| "split_dot (c # cs) =
     (if c = CHR ''.'' then [] # split_dot cs
      else (case split_dot cs of
              [] \<Rightarrow> [[c]]
            | p # ps \<Rightarrow> (c # p) # ps))"

text \<open>
  \<^verbatim>\<open>repr(s)\<close> of a string: double quotes when \<open>s\<close> has a single quote and no double
  quote, single quotes otherwise; the quote, the backslash, tab, line feed and carriage
  return are escaped, other unprintable characters are written \<^verbatim>\<open>\xNN\<close>.
\<close>

definition hex_digit :: "nat \<Rightarrow> char" where
  "hex_digit n = ''0123456789abcdef'' ! (n mod 16)"

definition py_printable :: "char \<Rightarrow> bool" where
  "py_printable c =
     (let n = (of_char c :: nat)
      in 32 \<le> n \<and> n \<noteq> 127 \<and> \<not> (128 \<le> n \<and> n \<le> 160) \<and> n \<noteq> 173)"

definition repr_char :: "char \<Rightarrow> char \<Rightarrow> string" where
  "repr_char q c =
     (if c = q \<or> c = BSL then [BSL, c]
      else if c = CHR 0x09 then [BSL, CHR ''t'']
      else if c = LF then [BSL, CHR ''n'']
      else if c = CHR 0x0D then [BSL, CHR ''r'']
      else if py_printable c then [c]
      else [BSL, CHR ''x'', hex_digit (of_char c div 16), hex_digit (of_char c)])"

definition py_repr :: "string \<Rightarrow> string" where
  "py_repr s =
     (let q = (if SQ \<in> set s \<and> DQ \<notin> set s then DQ else SQ)
      in q # concat (map (repr_char q) s) @ [q])"

text \<open>
  \<^verbatim>\<open>int(s)\<close> in base 10: white space is stripped at both ends, then an optional sign,
  then decimal digits, where single underscores may stand between two digits. Anything
  else raises \<^verbatim>\<open>ValueError\<close>, whose message shows at most 200 characters of
  \<^verbatim>\<open>repr(s)\<close>. (The interpreter's configurable cap on the number of digits is not
  part of the model.)
\<close>

definition py_isspace :: "char \<Rightarrow> bool" where
  "py_isspace c = ((of_char c :: nat) \<in> {9, 10, 11, 12, 13, 32, 133, 160})"

definition is_digit :: "char \<Rightarrow> bool" where
  "is_digit c = (48 \<le> (of_char c :: nat) \<and> (of_char c :: nat) \<le> 57)"

definition digit_val :: "char \<Rightarrow> nat" where
  "digit_val c = of_char c - 48"

fun parse_digits :: "nat \<Rightarrow> string \<Rightarrow> nat option" where
  "parse_digits acc [] = Some acc"
| "parse_digits acc [c] =
     (if is_digit c then Some (10 * acc + digit_val c) else None)"
| "parse_digits acc (c # d # ds) =
     (if is_digit c then parse_digits (10 * acc + digit_val c) (d # ds)
      else if c = CHR ''_'' \<and> is_digit d then parse_digits (10 * acc + digit_val d) ds
      else None)"

definition parse_number :: "string \<Rightarrow> nat option" where
  "parse_number s =
     (case s of
        [] \<Rightarrow> None
      | c # cs \<Rightarrow> if is_digit c then parse_digits (digit_val c) cs else None)"

definition py_strip :: "string \<Rightarrow> string" where
  "py_strip s = rev (dropWhile py_isspace (rev (dropWhile py_isspace s)))"

definition int_literal :: "string \<Rightarrow> int option" where
  "int_literal s =
     (case py_strip s of
        [] \<Rightarrow> None
      | c # cs \<Rightarrow>
          if c = CHR ''-'' then map_option (\<lambda>n. - int n) (parse_number cs)
          else if c = CHR ''+'' then map_option int (parse_number cs)
          else map_option int (parse_number (c # cs)))"

definition py_int :: "string \<Rightarrow> py_error + int" where
  "py_int s =
     (case int_literal s of
        None \<Rightarrow>
          Inl (ValueError (''invalid literal for int() with base 10: '' @ take 200 (py_repr s)))
      | Some n \<Rightarrow> Inr n)"

subsection \<open>The version constraint matcher\<close>

record VersionConstraint =
  constraint :: string
  operator :: string
  version :: string

text \<open>
  The second group of the regular expression, \<^verbatim>\<open>(.+)$\<close>: a non-empty run of
  characters other than line feed that reaches the end of the string, or the line feed
  that ends the string. The run is the group; the line feed is not part of it.
\<close>

definition match_rest :: "string \<Rightarrow> string option" where
  "match_rest r =
     (let v = takeWhile (\<lambda>c. c \<noteq> LF) r; t = dropWhile (\<lambda>c. c \<noteq> LF) r
      in if v \<noteq> [] \<and> (t = [] \<or> t = [LF]) then Some v else None)"

text \<open>
  The alternatives of the first group, in the order the expression tries them. A later
  alternative is tried when the rest after an earlier one does not match.
\<close>

definition operators :: "string list" where
  "operators = [''>='', ''<='', ''>'', ''<'', ''~>'', ''='', ''^'']"

fun match_operators :: "string list \<Rightarrow> string \<Rightarrow> (string \<times> string) option" where
  "match_operators [] s = None"
| "match_operators (op # ops) s =
     (if take (length op) s = op
      then (case match_rest (drop (length op) s) of
              Some v \<Rightarrow> Some (op, v)
            | None \<Rightarrow> match_operators ops s)
      else match_operators ops s)"

definition VersionConstraint_parse :: "string \<Rightarrow> py_error + (string \<times> string)" where
  "VersionConstraint_parse c =
     (case match_operators operators c of
        None \<Rightarrow> Inl (ValueError (''Invalid version constraint: '' @ c))
      | Some r \<Rightarrow> Inr r)"

definition VersionConstraint_init :: "string \<Rightarrow> py_error + VersionConstraint" where
  "VersionConstraint_init c =
     (case VersionConstraint_parse c of
        Inl e \<Rightarrow> Inl e
      | Inr (op, v) \<Rightarrow> Inr \<lparr>constraint = c, operator = op, version = v\<rparr>)"

text \<open>
  \<^verbatim>\<open>re.sub(r'[-+].*$', '', version)\<close>: at a hyphen or plus sign, the rest of the
  line is removed when the line is the last one (a line feed that ends the string stays).
  Without a line feed in the string this removes everything from the first hyphen or plus
  sign on.
\<close>

fun strip_suffix :: "string \<Rightarrow> string" where
  "strip_suffix [] = []"
| "strip_suffix (c # cs) =
     (let t = dropWhile (\<lambda>x. x \<noteq> LF) cs
      in if (c = CHR ''-'' \<or> c = CHR ''+'') \<and> (t = [] \<or> t = [LF]) then t
         else c # strip_suffix cs)"

type_synonym version_triple = "int \<times> int \<times> int"

text \<open>The three conditional expressions of the returned tuple, evaluated left to right.\<close>

definition component :: "string list \<Rightarrow> nat \<Rightarrow> py_error + int" where
  "component parts i = (if length parts > i then py_int (parts ! i) else Inr 0)"

definition parse_version :: "string \<Rightarrow> py_error + version_triple" where
  "parse_version v =
     (let parts = split_dot (strip_suffix v)
      in case component parts 0 of
           Inl e \<Rightarrow> Inl e
         | Inr major \<Rightarrow>
             (case component parts 1 of
                Inl e \<Rightarrow> Inl e
              | Inr minor \<Rightarrow>
                  (case component parts 2 of
                     Inl e \<Rightarrow> Inl e
                   | Inr patch \<Rightarrow> Inr (major, minor, patch))))"

text \<open>Python's order on tuples of three integers: lexicographic.\<close>

fun tuple_less :: "version_triple \<Rightarrow> version_triple \<Rightarrow> bool" where
  "tuple_less (a, b, c) (d, e, f) = (a < d \<or> (a = d \<and> (b < e \<or> (b = e \<and> c < f))))"

definition compare_versions :: "version_triple \<Rightarrow> version_triple \<Rightarrow> int" where
  "compare_versions v1 v2 =
     (if tuple_less v1 v2 then - 1
      else if tuple_less v2 v1 then 1
      else 0)"

text \<open>
  \<^verbatim>\<open>satisfies\<close> parses both versions first, whatever the operator is, so an
  unparsable version raises for every operator.
\<close>

definition satisfies :: "VersionConstraint \<Rightarrow> string \<Rightarrow> py_error + bool" where
  "satisfies self ver =
     (case parse_version (version self) of
        Inl e \<Rightarrow> Inl e
      | Inr v1_parts \<Rightarrow>
          (case parse_version ver of
             Inl e \<Rightarrow> Inl e
           | Inr v2_parts \<Rightarrow>
               Inr (if operator self = ''='' then version self = ver
                    else if operator self = ''>='' then compare_versions v2_parts v1_parts \<ge> 0
                    else if operator self = ''<='' then compare_versions v2_parts v1_parts \<le> 0
                    else if operator self = ''>'' then compare_versions v2_parts v1_parts > 0
                    else if operator self = ''<'' then compare_versions v2_parts v1_parts < 0
                    else if operator self = ''~>'' then
                      compare_versions v2_parts v1_parts \<ge> 0 \<and>
                      compare_versions v2_parts (fst v1_parts, fst (snd v1_parts) + 1, 0) < 0
                    else if operator self = ''^'' then
                      compare_versions v2_parts v1_parts \<ge> 0 \<and>
                      compare_versions v2_parts (fst v1_parts + 1, 0, 0) < 0
                    else False)))"

text \<open>
  The spec's \<open>Satisfies(constraintString, candidate)\<close>: the constructor followed by
  the method, as \<^verbatim>\<open>validate_dependencies\<close> calls them.
\<close>

definition Satisfies :: "string \<Rightarrow> string \<Rightarrow> py_error + bool" where
  "Satisfies c ver =
     (case VersionConstraint_init c of
        Inl e \<Rightarrow> Inl e
      | Inr self \<Rightarrow> satisfies self ver)"

text \<open>Python's \<^verbatim>\<open><=\<close> on tuples, used to state what a comparison result means.\<close>

definition tuple_le :: "version_triple \<Rightarrow> version_triple \<Rightarrow> bool" where
  "tuple_le v1 v2 = (tuple_less v1 v2 \<or> v1 = v2)"

subsection \<open>Manifests and the registry\<close>

text \<open>
  A manifest is the mapping that the YAML loader returns. The model keeps the three
  keys the resolver reads, each a string when present (\<open>None\<close>: the key is absent); a
  missing \<^verbatim>\<open>dependencies\<close> key reads as the empty list, as
  \<^verbatim>\<open>manifest.get('dependencies', [])\<close> does.
\<close>

record dependency =
  dep_name :: "string option"
  dep_version :: "string option"

record manifest =
  m_name :: "string option"
  m_version :: "string option"
  m_dependencies :: "dependency list"

text \<open>
  \<^verbatim>\<open>self.plugins\<close>: a dictionary, which keeps its keys in insertion order. An
  assignment to a key that is present replaces the value in place.
\<close>

type_synonym registry = "(string \<times> manifest) list"

fun dict_set :: "('k \<times> 'v) list \<Rightarrow> 'k \<Rightarrow> 'v \<Rightarrow> ('k \<times> 'v) list" where
  "dict_set [] k v = [(k, v)]"
| "dict_set ((k', v') # kvs) k v =
     (if k' = k then (k, v) # kvs else (k', v') # dict_set kvs k v)"

text \<open>
  The plugins directory: absent, or the \<^verbatim>\<open>*.potion\<close> files in the order
  \<^verbatim>\<open>glob\<close> yields them, each with the manifest it loads to (\<open>None\<close>: opening or
  parsing the file raised, which the loop catches and reports as a warning).
\<close>

datatype directory =
    NoDirectory
  | Directory "(string \<times> manifest option) list"

text \<open>One round of the loop: the registry and the files warned about so far.\<close>

fun load_file :: "registry \<times> string list \<Rightarrow> string \<times> manifest option \<Rightarrow> registry \<times> string list"
  where
  "load_file (plugins, warnings) (manifest_file, None) = (plugins, warnings @ [manifest_file])"
| "load_file (plugins, warnings) (manifest_file, Some manifest) =
     (case m_name manifest of
        None \<Rightarrow> (plugins, warnings)
      | Some n \<Rightarrow> if n \<noteq> [] then (dict_set plugins n manifest, warnings) else (plugins, warnings))"

fun load_plugins :: "directory \<Rightarrow> registry \<times> string list" where
  "load_plugins NoDirectory = ([], [])"
| "load_plugins (Directory files) = foldl load_file ([], []) files"

subsection \<open>The dependency graph\<close>

text \<open>
  \<^verbatim>\<open>defaultdict(set)\<close>: every name has a set of names, empty until something is
  added.
\<close>

type_synonym graph = "string \<Rightarrow> string set"

fun add_dependencies :: "string \<Rightarrow> dependency list \<Rightarrow> graph \<times> graph \<Rightarrow> graph \<times> graph" where
  "add_dependencies n [] gr = gr"
| "add_dependencies n (dep # deps) (dependency_graph, reverse_graph) =
     (case dep_name dep of
        None \<Rightarrow> add_dependencies n deps (dependency_graph, reverse_graph)
      | Some d \<Rightarrow>
          if d \<noteq> []
          then add_dependencies n deps
                 (dependency_graph(n := insert d (dependency_graph n)),
                  reverse_graph(d := insert n (reverse_graph d)))
          else add_dependencies n deps (dependency_graph, reverse_graph))"

fun build_from :: "registry \<Rightarrow> graph \<times> graph \<Rightarrow> graph \<times> graph" where
  "build_from [] gr = gr"
| "build_from ((n, manifest) # plugins) gr =
     build_from plugins (add_dependencies n (m_dependencies manifest) gr)"

definition build_dependency_graph :: "registry \<Rightarrow> graph \<times> graph" where
  "build_dependency_graph plugins = build_from plugins (\<lambda>_. {}, \<lambda>_. {})"

subsection \<open>Cycle detection\<close>

text \<open>
  The four variables that the nested function \<^verbatim>\<open>dfs\<close> shares with
  \<^verbatim>\<open>detect_circular_dependencies\<close>.
\<close>

record dfs_state =
  cycles :: "string list list"
  visited :: "string set"
  rec_stack :: "string set"
  path :: "string list"

text \<open>\<^verbatim>\<open>xs.index(x)\<close>: the first position of \<open>x\<close>, if there is one.\<close>

fun index_of :: "'a list \<Rightarrow> 'a \<Rightarrow> nat option" where
  "index_of [] x = None"
| "index_of (y # ys) x = (if y = x then Some 0 else map_option Suc (index_of ys x))"

text \<open>
  A set is iterated in an order the interpreter chooses. The traversal takes the forward
  graph as \<open>neighbors\<close>: each adjacency set as the list of its elements in iteration order.
\<close>

definition iteration_of :: "graph \<Rightarrow> (string \<Rightarrow> string list) \<Rightarrow> bool" where
  "iteration_of g neighbors = (\<forall>n. set (neighbors n) = g n \<and> distinct (neighbors n))"

text \<open>
  \<open>dfs\<close> is the nested function, \<open>dfs_loop\<close> its \<^verbatim>\<open>for\<close> loop. The first
  argument is the number of nested calls the interpreter still allows: at none,
  \<^verbatim>\<open>RecursionError\<close> is raised.
\<close>

fun dfs :: "nat \<Rightarrow> (string \<Rightarrow> string list) \<Rightarrow> string \<Rightarrow> dfs_state \<Rightarrow> py_error + dfs_state"
  and dfs_loop :: "nat \<Rightarrow> (string \<Rightarrow> string list) \<Rightarrow> string list \<Rightarrow> dfs_state \<Rightarrow> py_error + dfs_state"
  where
  "dfs 0 neighbors node st = Inl RecursionError"
| "dfs (Suc depth) neighbors node st =
     (case dfs_loop depth neighbors (neighbors node)
             (st\<lparr>visited := insert node (visited st),
                 rec_stack := insert node (rec_stack st),
                 path := path st @ [node]\<rparr>) of
        Inl e \<Rightarrow> Inl e
      | Inr st' \<Rightarrow>
          if node \<notin> rec_stack st' then Inl (KeyError node)
          else if path st' = [] then Inl IndexError
          else Inr (st'\<lparr>rec_stack := rec_stack st' - {node}, path := butlast (path st')\<rparr>))"
| "dfs_loop depth neighbors [] st = Inr st"
| "dfs_loop depth neighbors (neighbor # rest) st =
     (if neighbor \<notin> visited st then
        (case dfs depth neighbors neighbor st of
           Inl e \<Rightarrow> Inl e
         | Inr st' \<Rightarrow> dfs_loop depth neighbors rest st')
      else if neighbor \<in> rec_stack st then
        (case index_of (path st) neighbor of
           None \<Rightarrow> Inl (ValueError (py_repr neighbor @ '' is not in list''))
         | Some cycle_start \<Rightarrow>
             dfs_loop depth neighbors rest
               (st\<lparr>cycles := cycles st @ [drop cycle_start (path st) @ [neighbor]]\<rparr>))
      else dfs_loop depth neighbors rest st)"

fun dfs_roots :: "nat \<Rightarrow> (string \<Rightarrow> string list) \<Rightarrow> string list \<Rightarrow> dfs_state \<Rightarrow> py_error + dfs_state"
  where
  "dfs_roots depth neighbors [] st = Inr st"
| "dfs_roots depth neighbors (node # nodes) st =
     (if node \<notin> visited st then
        (case dfs depth neighbors node st of
           Inl e \<Rightarrow> Inl e
         | Inr st' \<Rightarrow> dfs_roots depth neighbors nodes st')
      else dfs_roots depth neighbors nodes st)"

definition detect_circular_dependencies ::
  "nat \<Rightarrow> (string \<Rightarrow> string list) \<Rightarrow> registry \<Rightarrow> py_error + string list list" where
  "detect_circular_dependencies depth neighbors plugins =
     (case dfs_roots depth neighbors (map fst plugins)
             \<lparr>cycles = [], visited = {}, rec_stack = {}, path = []\<rparr> of
        Inl e \<Rightarrow> Inl e
      | Inr st \<Rightarrow> Inr (cycles st))"

subsection \<open>Validation\<close>

text \<open>The body of the loop over the dependency declarations of a manifest.\<close>

definition validate_dependency :: "registry \<Rightarrow> dependency \<Rightarrow> string list \<Rightarrow> py_error + string list"
  where
  "validate_dependency plugins dep errors =
     (case dep_name dep of
        None \<Rightarrow> Inr (errors @ [''Invalid dependency: missing name''])
      | Some d \<Rightarrow>
          if d = [] then Inr (errors @ [''Invalid dependency: missing name''])
          else
            (case map_of plugins d of
               None \<Rightarrow> Inr (errors @ [''Dependency '' @ [SQ] @ d @ [SQ] @ '' not found in registry''])
             | Some target \<Rightarrow>
                 (case dep_version dep of
                    None \<Rightarrow> Inr errors
                  | Some c \<Rightarrow>
                      if c = [] then Inr errors
                      else
                        (let plugin_version =
                               (case m_version target of None \<Rightarrow> ''0.0.0'' | Some v \<Rightarrow> v)
                         in case Satisfies c plugin_version of
                              Inr ok \<Rightarrow>
                                if \<not> ok
                                then Inr (errors @
                                       [''Dependency '' @ [SQ] @ d @ [SQ] @ '' version '' @ [SQ] @
                                        plugin_version @ [SQ] @ '' does not satisfy constraint '' @
                                        [SQ] @ c @ [SQ]])
                                else Inr errors
                            | Inl (ValueError e) \<Rightarrow>
                                Inr (errors @
                                  [''Invalid version constraint for '' @ [SQ] @ d @ [SQ] @ '': '' @ e])
                            | Inl other \<Rightarrow> Inl other))))"

fun validate_loop :: "registry \<Rightarrow> dependency list \<Rightarrow> string list \<Rightarrow> py_error + string list" where
  "validate_loop plugins [] errors = Inr errors"
| "validate_loop plugins (dep # deps) errors =
     (case validate_dependency plugins dep errors of
        Inl e \<Rightarrow> Inl e
      | Inr errors' \<Rightarrow> validate_loop plugins deps errors')"

definition validate_dependencies :: "registry \<Rightarrow> manifest \<Rightarrow> py_error + bool \<times> string list" where
  "validate_dependencies plugins manifest =
     (case validate_loop plugins (m_dependencies manifest) [] of
        Inl e \<Rightarrow> Inl e
      | Inr errors \<Rightarrow> Inr (errors = [], errors))"

subsection \<open>Resolution of the whole registry\<close>




subsection \<open>The spec's pattern for a constraint\<close>

text \<open>
  Follows the spec's words, to be compared with \<open>VersionConstraint_parse\<close>: the string is
  one of the seven operators followed by a version part, which is not empty.
\<close>

definition matches_pattern :: "string \<Rightarrow> bool" where
  "matches_pattern s =
     list_ex (\<lambda>op. take (length op) s = op \<and> length op < length s) operators"

subsection \<open>Notions of the spec for validation\<close>

text \<open>
  Follows the spec's words: a dependency declaration fails when its name is missing, when
  its name is not a key of the registry, or when it has a version constraint that does not
  parse or that the registered version does not satisfy.
\<close>

definition dependency_fails :: "registry \<Rightarrow> dependency \<Rightarrow> bool" where
  "dependency_fails plugins dep =
     (case dep_name dep of
        None \<Rightarrow> True
      | Some d \<Rightarrow>
          d = [] \<or>
          (case map_of plugins d of
             None \<Rightarrow> True
           | Some target \<Rightarrow>
               (case dep_version dep of
                  None \<Rightarrow> False
                | Some c \<Rightarrow>
                    Satisfies c (case m_version target of None \<Rightarrow> ''0.0.0'' | Some v \<Rightarrow> v)
                      \<noteq> Inr True)))"

text \<open>
  The declaration as \<^verbatim>\<open>if dep_version:\<close> reads it: an empty constraint string is no
  constraint.
\<close>

definition empty_constraint_as_none :: "dependency \<Rightarrow> dependency" where
  "empty_constraint_as_none dep =
     (if dep_version dep = Some [] then dep\<lparr>dep_version := None\<rparr> else dep)"

text \<open>The registry with the version \<^verbatim>\<open>0.0.0\<close> written into every manifest that has none.\<close>

definition with_default_version :: "manifest \<Rightarrow> manifest" where
  "with_default_version m =
     (case m_version m of None \<Rightarrow> m\<lparr>m_version := Some ''0.0.0''\<rparr> | Some v \<Rightarrow> m)"

definition default_versions :: "registry \<Rightarrow> registry" where
  "default_versions plugins = map (\<lambda>(n, m). (n, with_default_version m)) plugins"

subsection \<open>Notions for the traversal\<close>

text \<open>
  What holds of the shared variables whenever \<open>dfs\<close> is called or returns: the set of the
  nodes on the stack is the set of the nodes on the path, and all of them are visited.
\<close>

definition dfs_inv :: "dfs_state \<Rightarrow> bool" where
  "dfs_inv st = (rec_stack st = set (path st) \<and> set (path st) \<subseteq> visited st)"

text \<open>
  What a call of \<open>dfs\<close> on \<open>node\<close> leaves behind: the path and the stack as they were,
  \<open>node\<close> visited, nothing unvisited again, and the cycles found so far still there.
\<close>

definition dfs_post :: "string \<Rightarrow> dfs_state \<Rightarrow> dfs_state \<Rightarrow> bool" where
  "dfs_post node st st' =
     (path st' = path st \<and> rec_stack st' = rec_stack st \<and>
      insert node (visited st) \<subseteq> visited st' \<and>
      (\<exists>cs. cycles st' = cycles st @ cs) \<and> dfs_inv st')"

definition loop_post :: "dfs_state \<Rightarrow> dfs_state \<Rightarrow> bool" where
  "loop_post st st' =
     (path st' = path st \<and> rec_stack st' = rec_stack st \<and>
      visited st \<subseteq> visited st' \<and>
      (\<exists>cs. cycles st' = cycles st @ cs) \<and> dfs_inv st')"

text \<open>
  For a set \<open>T\<close> of nodes and a property \<open>found\<close> of the list of cycles: no node of
  \<open>T\<close> is visited yet, or the property holds already.
\<close>

definition cycle_inv :: "string set \<Rightarrow> (string list list \<Rightarrow> bool) \<Rightarrow> dfs_state \<Rightarrow> bool" where
  "cycle_inv T found st = (T \<inter> visited st = {} \<or> found (cycles st))"

text \<open>The nodes of the graph: the keys of the registry and the names they depend on.\<close>

definition graph_nodes :: "registry \<Rightarrow> string set" where
  "graph_nodes plugins =
     set (map fst plugins @
          concat (map (\<lambda>(n, m). List.map_filter dep_name (m_dependencies m)) plugins))"

section \<open>Properties of the matcher\<close>

lemma compare_versions_sign:
  "(compare_versions a b \<ge> 0) = tuple_le b a"
  "(compare_versions a b < 0) = tuple_less a b"
  "(compare_versions a b > 0) = tuple_less b a"
  "(compare_versions a b \<le> 0) = tuple_le a b"
  by (cases a; cases b; auto simp: compare_versions_def tuple_le_def)+

lemma parse_version_examples:
  "parse_version ''1.2'' = Inr (1, 2, 0)"
  "parse_version ''1.2.0'' = Inr (1, 2, 0)"
  "parse_version ''1.2.3'' = Inr (1, 2, 3)"
  "parse_version ''1.2.9'' = Inr (1, 2, 9)"
  "parse_version ''1.3.0'' = Inr (1, 3, 0)"
  "parse_version ''1.9.9'' = Inr (1, 9, 9)"
  "parse_version ''2.0.0'' = Inr (2, 0, 0)"
  "parse_version ''1.2.3-beta+001'' = Inr (1, 2, 3)"
  by code_simp+

text \<open>
  C2. With the operator \<^verbatim>\<open>~>\<close>, and both versions parsed, \<open>satisfies\<close> is true
  exactly when the candidate triple is at least the reference triple and below
  (major, minor + 1, 0) of the reference. The bound is taken from the parsed triple, so a
  constraint with two components, \<^verbatim>\<open>~>1.2\<close>, also ends below 1.3.0.
\<close>

theorem satisfies_pessimistic:
  "(operator self = ''~>'' \<and> parse_version (version self) = Inr (major, minor, patch) \<and>
      parse_version ver = Inr cand \<longrightarrow>
      satisfies self ver =
        Inr (tuple_le (major, minor, patch) cand \<and> tuple_less cand (major, minor + 1, 0))) \<and>
   Satisfies ''~>1.2.3'' ''1.2.9'' = Inr True \<and>
   Satisfies ''~>1.2.3'' ''1.3.0'' = Inr False \<and>
   Satisfies ''~>1.2'' ''1.2.9'' = Inr True \<and>
   Satisfies ''~>1.2'' ''1.3.0'' = Inr False"
proof -
  have general: "satisfies self ver =
        Inr (tuple_le (major, minor, patch) cand \<and> tuple_less cand (major, minor + 1, 0))"
    if "operator self = ''~>''" "parse_version (version self) = Inr (major, minor, patch)"
      "parse_version ver = Inr cand"
    using that by (simp add: satisfies_def compare_versions_sign)
  have "Satisfies ''~>1.2.3'' ''1.2.9'' = Inr True" by code_simp
  moreover have "Satisfies ''~>1.2.3'' ''1.3.0'' = Inr False" by code_simp
  moreover have "Satisfies ''~>1.2'' ''1.2.9'' = Inr True" by code_simp
  moreover have "Satisfies ''~>1.2'' ''1.3.0'' = Inr False" by code_simp
  ultimately show ?thesis using general by blast
qed

theorem satisfies_pessimistic_witness:
  "satisfies \<lparr>constraint = ''~>1.2'', operator = ''~>'', version = ''1.2''\<rparr> ''1.2.9'' = Inr True"
proof -
  have "parse_version ''1.2'' = Inr (1, 2, 0)" "parse_version ''1.2.9'' = Inr (1, 2, 9)"
    by (rule parse_version_examples)+
  then show ?thesis
    using satisfies_pessimistic
      [of "\<lparr>constraint = ''~>1.2'', operator = ''~>'', version = ''1.2''\<rparr>" 1 2 0 "''1.2.9''"
        "(1, 2, 9)"]
    by (simp add: tuple_le_def)
qed

text \<open>
  C9. With the operator \<^verbatim>\<open>^\<close>, and both versions parsed, \<open>satisfies\<close> is true
  exactly when the candidate triple is at least the reference triple and below
  (major + 1, 0, 0) of the reference.
\<close>

theorem satisfies_caret:
  "(operator self = ''^'' \<and> parse_version (version self) = Inr (major, minor, patch) \<and>
      parse_version ver = Inr cand \<longrightarrow>
      satisfies self ver =
        Inr (tuple_le (major, minor, patch) cand \<and> tuple_less cand (major + 1, 0, 0))) \<and>
   Satisfies ''^1.2.3'' ''1.9.9'' = Inr True \<and>
   Satisfies ''^1.2.3'' ''2.0.0'' = Inr False"
proof -
  have general: "satisfies self ver =
        Inr (tuple_le (major, minor, patch) cand \<and> tuple_less cand (major + 1, 0, 0))"
    if "operator self = ''^''" "parse_version (version self) = Inr (major, minor, patch)"
      "parse_version ver = Inr cand"
    using that by (simp add: satisfies_def compare_versions_sign)
  have "Satisfies ''^1.2.3'' ''1.9.9'' = Inr True" by code_simp
  moreover have "Satisfies ''^1.2.3'' ''2.0.0'' = Inr False" by code_simp
  ultimately show ?thesis using general by blast
qed

theorem satisfies_caret_witness:
  "satisfies \<lparr>constraint = ''^1.2.3'', operator = ''^'', version = ''1.2.3''\<rparr> ''1.9.9'' = Inr True"
proof -
  have "parse_version ''1.2.3'' = Inr (1, 2, 3)" "parse_version ''1.9.9'' = Inr (1, 9, 9)"
    by (rule parse_version_examples)+
  then show ?thesis
    using satisfies_caret
      [of "\<lparr>constraint = ''^1.2.3'', operator = ''^'', version = ''1.2.3''\<rparr>" 1 2 3 "''1.9.9''"
        "(1, 9, 9)"]
    by (simp add: tuple_le_def)
qed

lemma satisfies_parsed:
  assumes "parse_version (version self) = Inr ref" "parse_version ver = Inr cand"
  shows "operator self = ''='' \<Longrightarrow> satisfies self ver = Inr (version self = ver)"
    and "operator self = ''>='' \<Longrightarrow> satisfies self ver = Inr (tuple_le ref cand)"
    and "operator self = ''<='' \<Longrightarrow> satisfies self ver = Inr (tuple_le cand ref)"
    and "operator self = ''>'' \<Longrightarrow> satisfies self ver = Inr (tuple_less ref cand)"
    and "operator self = ''<'' \<Longrightarrow> satisfies self ver = Inr (tuple_less cand ref)"
    and "operator self = ''~>'' \<Longrightarrow> satisfies self ver =
          Inr (tuple_le ref cand \<and> tuple_less cand (fst ref, fst (snd ref) + 1, 0))"
    and "operator self = ''^'' \<Longrightarrow> satisfies self ver =
          Inr (tuple_le ref cand \<and> tuple_less cand (fst ref + 1, 0, 0))"
  using assms by (simp_all add: satisfies_def compare_versions_sign)

text \<open>
  C1, as amended. \<open>satisfies\<close> parses both versions first and raises when one of them
  does not parse, whatever the operator. With the operator \<^verbatim>\<open>=\<close> and both versions
  parsed, it compares the two version strings as they are written: \<^verbatim>\<open>1.2.0\<close> and
  \<^verbatim>\<open>1.2\<close> parse to the same triple and are not equal under \<^verbatim>\<open>=\<close>, while
  \<^verbatim>\<open>>=\<close> and \<^verbatim>\<open><=\<close> both hold between them. Every other operator compares the
  parsed triples: \<^verbatim>\<open>>=\<close>, \<^verbatim>\<open><=\<close>, \<^verbatim>\<open>>\<close> and \<^verbatim>\<open><\<close> in the lexicographic
  order, \<^verbatim>\<open>~>\<close> and \<^verbatim>\<open>^\<close> between the reference and its upper bound.
\<close>

theorem satisfies_equal_is_string_equality:
  "(operator self = ''='' \<longrightarrow>
      satisfies self ver =
        (case parse_version (version self) of
           Inl e \<Rightarrow> Inl e
         | Inr ref \<Rightarrow>
             (case parse_version ver of
                Inl e \<Rightarrow> Inl e
              | Inr cand \<Rightarrow> Inr (version self = ver)))) \<and>
   (parse_version (version self) = Inr ref \<and> parse_version ver = Inr cand \<longrightarrow>
      (operator self = ''='' \<longrightarrow> satisfies self ver = Inr (version self = ver)) \<and>
      (operator self = ''>='' \<longrightarrow> satisfies self ver = Inr (tuple_le ref cand)) \<and>
      (operator self = ''<='' \<longrightarrow> satisfies self ver = Inr (tuple_le cand ref)) \<and>
      (operator self = ''>'' \<longrightarrow> satisfies self ver = Inr (tuple_less ref cand)) \<and>
      (operator self = ''<'' \<longrightarrow> satisfies self ver = Inr (tuple_less cand ref)) \<and>
      (operator self = ''~>'' \<longrightarrow>
         satisfies self ver =
           Inr (tuple_le ref cand \<and> tuple_less cand (fst ref, fst (snd ref) + 1, 0))) \<and>
      (operator self = ''^'' \<longrightarrow>
         satisfies self ver =
           Inr (tuple_le ref cand \<and> tuple_less cand (fst ref + 1, 0, 0)))) \<and>
   (parse_version (version self) = Inl e \<longrightarrow> satisfies self ver = Inl e) \<and>
   (parse_version (version self) = Inr ref \<and> parse_version ver = Inl e \<longrightarrow>
      satisfies self ver = Inl e) \<and>
   parse_version ''1.2.0'' = parse_version ''1.2'' \<and>
   Satisfies ''=1.2.0'' ''1.2'' = Inr False \<and>
   Satisfies ''>=1.2.0'' ''1.2'' = Inr True \<and>
   Satisfies ''<=1.2.0'' ''1.2'' = Inr True"
proof -
  have eq: "satisfies self ver =
        (case parse_version (version self) of
           Inl e \<Rightarrow> Inl e
         | Inr ref \<Rightarrow>
             (case parse_version ver of
                Inl e \<Rightarrow> Inl e
              | Inr cand \<Rightarrow> Inr (version self = ver)))"
    if "operator self = ''=''"
    using that
    by (cases "parse_version (version self)"; cases "parse_version ver"; simp add: satisfies_def)
  have raises: "satisfies self ver = Inl e" if "parse_version (version self) = Inl e"
    using that by (simp add: satisfies_def)
  have raises': "satisfies self ver = Inl e"
    if "parse_version (version self) = Inr ref" "parse_version ver = Inl e"
    using that by (simp add: satisfies_def)
  have "parse_version ''1.2.0'' = parse_version ''1.2''"
    by (simp add: parse_version_examples)
  moreover have "Satisfies ''=1.2.0'' ''1.2'' = Inr False" by code_simp
  moreover have "Satisfies ''>=1.2.0'' ''1.2'' = Inr True" by code_simp
  moreover have "Satisfies ''<=1.2.0'' ''1.2'' = Inr True" by code_simp
  ultimately show ?thesis
    using eq raises raises' satisfies_parsed [of self ref ver cand] by blast
qed

theorem satisfies_equal_is_string_equality_witness:
  "satisfies \<lparr>constraint = ''=1.2.0'', operator = ''='', version = ''1.2.0''\<rparr> ''1.2'' = Inr False \<and>
   satisfies \<lparr>constraint = ''>=1.2.0'', operator = ''>='', version = ''1.2.0''\<rparr> ''1.2'' = Inr True \<and>
   satisfies \<lparr>constraint = ''<1.2.0'', operator = ''<'', version = ''1.2.0''\<rparr> ''1.2'' = Inr False"
proof -
  have p: "parse_version ''1.2.0'' = Inr (1, 2, 0)" "parse_version ''1.2'' = Inr (1, 2, 0)"
    by (rule parse_version_examples)+
  have "satisfies \<lparr>constraint = ''=1.2.0'', operator = ''='', version = ''1.2.0''\<rparr> ''1.2'' = Inr False"
    using p satisfies_equal_is_string_equality
      [of "\<lparr>constraint = ''=1.2.0'', operator = ''='', version = ''1.2.0''\<rparr>" "''1.2''"
        "(1, 2, 0)" "(1, 2, 0)"]
    by simp
  moreover have "satisfies \<lparr>constraint = ''>=1.2.0'', operator = ''>='', version = ''1.2.0''\<rparr> ''1.2'' =
      Inr True"
    using p satisfies_equal_is_string_equality
      [of "\<lparr>constraint = ''>=1.2.0'', operator = ''>='', version = ''1.2.0''\<rparr>" "''1.2''"
        "(1, 2, 0)" "(1, 2, 0)"]
    by (simp add: tuple_le_def)
  moreover have "satisfies \<lparr>constraint = ''<1.2.0'', operator = ''<'', version = ''1.2.0''\<rparr> ''1.2'' =
      Inr False"
    using p satisfies_equal_is_string_equality
      [of "\<lparr>constraint = ''<1.2.0'', operator = ''<'', version = ''1.2.0''\<rparr>" "''1.2''"
        "(1, 2, 0)" "(1, 2, 0)"]
    by simp
  ultimately show ?thesis by blast
qed

text \<open>
  C1, as stated, fails where a version does not parse: the two version strings are equal,
  and with the operator \<^verbatim>\<open>=\<close> the result is not true but \<^verbatim>\<open>ValueError\<close>.
\<close>

theorem satisfies_equal_unparsable_counterexample:
  "Satisfies ''=latest'' ''latest'' =
     Inl (ValueError (''invalid literal for int() with base 10: '' @ [SQ] @ ''latest'' @ [SQ])) \<and>
   VersionConstraint_parse ''=latest'' = Inr (''='', ''latest'')"
  by code_simp

subsection \<open>Parsing a constraint\<close>


lemma takeWhile_no_LF: "x \<notin> set v \<Longrightarrow> takeWhile (\<lambda>c. c \<noteq> x) (v @ x # r) = v"
  by (induction v) auto

lemma dropWhile_no_LF: "x \<notin> set v \<Longrightarrow> dropWhile (\<lambda>c. c \<noteq> x) (v @ x # r) = x # r"
  by (induction v) auto

lemma takeWhile_all: "x \<notin> set v \<Longrightarrow> takeWhile (\<lambda>c. c \<noteq> x) v = v"
  by (induction v) auto

lemma dropWhile_all: "x \<notin> set v \<Longrightarrow> dropWhile (\<lambda>c. c \<noteq> x) v = []"
  by (induction v) auto

lemma match_rest_Some:
  "match_rest r = Some v \<longleftrightarrow> v \<noteq> [] \<and> LF \<notin> set v \<and> (r = v \<or> r = v @ [LF])"
proof
  assume h: "match_rest r = Some v"
  let ?t = "dropWhile (\<lambda>c. c \<noteq> LF) r"
  from h have v: "v = takeWhile (\<lambda>c. c \<noteq> LF) r" "v \<noteq> []" and t: "?t = [] \<or> ?t = [LF]"
    by (auto simp: match_rest_def Let_def split: if_splits)
  have "LF \<notin> set v" using v(1) by (auto dest: set_takeWhileD)
  moreover have "r = v @ ?t" using v(1) by simp
  with t have "r = v \<or> r = v @ [LF]" by (metis append_Nil2)
  ultimately show "v \<noteq> [] \<and> LF \<notin> set v \<and> (r = v \<or> r = v @ [LF])"
    using v(2) by blast
next
  assume "v \<noteq> [] \<and> LF \<notin> set v \<and> (r = v \<or> r = v @ [LF])"
  then show "match_rest r = Some v"
    by (auto simp: match_rest_def Let_def takeWhile_all dropWhile_all takeWhile_no_LF dropWhile_no_LF)
qed

lemma match_rest_None:
  "match_rest r = None \<longleftrightarrow> \<not> (\<exists>v. v \<noteq> [] \<and> LF \<notin> set v \<and> (r = v \<or> r = v @ [LF]))"
  using match_rest_Some [of r] by (cases "match_rest r") auto

lemma match_operators_Some:
  "match_operators ops s = Some (op, v) \<Longrightarrow>
     op \<in> set ops \<and> take (length op) s = op \<and> match_rest (drop (length op) s) = Some v"
  by (induction ops) (auto split: if_splits option.splits)

lemma match_operators_None:
  "match_operators ops s = None \<longleftrightarrow>
     (\<forall>op \<in> set ops. take (length op) s = op \<longrightarrow> match_rest (drop (length op) s) = None)"
  by (induction ops) (auto split: if_splits option.splits)

lemma prefix_split: "take (length op) s = op \<Longrightarrow> s = op @ drop (length op) s"
  by (metis append_take_drop_id)

lemma parse_Inr:
  assumes "VersionConstraint_parse s = Inr (op, v)"
  shows "op \<in> set operators \<and> v \<noteq> [] \<and> LF \<notin> set v \<and> (s = op @ v \<or> s = op @ v @ [LF])"
proof -
  from assms have "match_operators operators s = Some (op, v)"
    by (auto simp: VersionConstraint_parse_def split: option.splits)
  from match_operators_Some [OF this]
  have op: "op \<in> set operators" and pre: "take (length op) s = op"
    and rest: "match_rest (drop (length op) s) = Some v" by auto
  from rest have "v \<noteq> []" "LF \<notin> set v" "drop (length op) s = v \<or> drop (length op) s = v @ [LF]"
    by (auto simp: match_rest_Some)
  with op prefix_split [OF pre] show ?thesis by metis
qed

lemma parse_Inl:
  "(\<exists>e. VersionConstraint_parse s = Inl e) \<longleftrightarrow>
     \<not> (\<exists>op \<in> set operators. \<exists>v. v \<noteq> [] \<and> LF \<notin> set v \<and> (s = op @ v \<or> s = op @ v @ [LF]))"
proof -
  have "(\<exists>e. VersionConstraint_parse s = Inl e) \<longleftrightarrow> match_operators operators s = None"
    by (auto simp: VersionConstraint_parse_def split: option.splits)
  also have "\<dots> \<longleftrightarrow> (\<forall>op \<in> set operators. take (length op) s = op \<longrightarrow>
       \<not> (\<exists>v. v \<noteq> [] \<and> LF \<notin> set v \<and> (drop (length op) s = v \<or> drop (length op) s = v @ [LF])))"
    by (simp add: match_operators_None match_rest_None)
  also have "\<dots> \<longleftrightarrow> \<not> (\<exists>op \<in> set operators. \<exists>v. v \<noteq> [] \<and> LF \<notin> set v \<and> (s = op @ v \<or> s = op @ v @ [LF]))"
  proof -
    have a: "take (length op) s = op \<and> (drop (length op) s = v \<or> drop (length op) s = v @ [LF])
           \<longleftrightarrow> (s = op @ v \<or> s = op @ v @ [LF])" for op v
      by (auto dest: prefix_split)
    show ?thesis using a by blast
  qed
  finally show ?thesis .
qed

lemma matches_pattern_iff:
  "matches_pattern s \<longleftrightarrow> (\<exists>op \<in> set operators. \<exists>v. v \<noteq> [] \<and> s = op @ v)"
proof -
  have "(take (length op) s = op \<and> length op < length s) \<longleftrightarrow> (\<exists>v. v \<noteq> [] \<and> s = op @ v)" for op
  proof
    assume h: "take (length op) s = op \<and> length op < length s"
    then have "s = op @ drop (length op) s" "drop (length op) s \<noteq> []"
      by (auto dest: prefix_split)
    then show "\<exists>v. v \<noteq> [] \<and> s = op @ v" by blast
  qed auto
  then show ?thesis by (simp add: matches_pattern_def list_ex_iff)
qed

lemma parse_no_LF:
  assumes "LF \<notin> set s"
  shows "(\<exists>e. VersionConstraint_parse s = Inl e) \<longleftrightarrow> \<not> matches_pattern s"
proof -
  have "(\<exists>v. v \<noteq> [] \<and> LF \<notin> set v \<and> (s = op @ v \<or> s = op @ v @ [LF])) \<longleftrightarrow> (\<exists>v. v \<noteq> [] \<and> s = op @ v)" for op
    using assms by auto
  then show ?thesis unfolding parse_Inl matches_pattern_iff by simp
qed


lemma match_operators_first:
  assumes "take (length op) s = op" "match_rest (drop (length op) s) = Some v"
    and "\<forall>op' \<in> set pre. take (length op') s = op' \<longrightarrow> match_rest (drop (length op') s) = None"
  shows "match_operators (pre @ op # post) s = Some (op, v)"
  using assms by (induction pre) auto

lemma parse_two_chars:
  assumes op: "op = ''>='' \<or> op = ''<='' \<or> op = ''~>''"
    and v: "v \<noteq> []" "LF \<notin> set v" and s: "s = op @ v \<or> s = op @ v @ [LF]"
  shows "VersionConstraint_parse s = Inr (op, v)"
proof -
  have len: "length op = 2" using op by auto
  have pre: "take (length op) s = op" using s by auto
  have rest: "match_rest (drop (length op) s) = Some v"
    using s v by (auto simp: match_rest_Some)
  from op consider "op = ''>=''" | "op = ''<=''" | "op = ''~>''" by blast
  then have "match_operators operators s = Some (op, v)"
  proof cases
    case 1
    then show ?thesis
      using match_operators_first [of op s v "[]" "[''<='', ''>'', ''<'', ''~>'', ''='', ''^'']"] pre rest
      by (simp add: operators_def)
  next
    case 2
    then show ?thesis
      using match_operators_first [of op s v "[''>='']" "[''>'', ''<'', ''~>'', ''='', ''^'']"] pre rest s
      by (auto simp: operators_def)
  next
    case 3
    then show ?thesis
      using match_operators_first [of op s v "[''>='', ''<='', ''>'', ''<'']" "[''='', ''^'']"] pre rest s
      by (auto simp: operators_def)
  qed
  then show ?thesis by (simp add: VersionConstraint_parse_def)
qed

lemma parse_one_char:
  assumes op: "op = ''>'' \<or> op = ''<'' \<or> op = ''='' \<or> op = ''^''"
    and v: "v \<noteq> []" "LF \<notin> set v" and s: "s = op @ v \<or> s = op @ v @ [LF]"
    and longer: "\<not> (\<exists>op2 v2. (op2 = ''>='' \<or> op2 = ''<='' \<or> op2 = ''~>'') \<and> v2 \<noteq> [] \<and>
        LF \<notin> set v2 \<and> (s = op2 @ v2 \<or> s = op2 @ v2 @ [LF]))"
  shows "VersionConstraint_parse s = Inr (op, v)"
proof -
  have pre: "take (length op) s = op" using s by auto
  have rest: "match_rest (drop (length op) s) = Some v"
    using s v by (auto simp: match_rest_Some)
  have two: "match_rest (drop (length op2) s) = None"
    if "op2 = ''>='' \<or> op2 = ''<='' \<or> op2 = ''~>''" "take (length op2) s = op2" for op2
  proof (rule ccontr)
    assume "match_rest (drop (length op2) s) \<noteq> None"
    then obtain v2 where "match_rest (drop (length op2) s) = Some v2" by auto
    then have "v2 \<noteq> []" "LF \<notin> set v2"
      "drop (length op2) s = v2 \<or> drop (length op2) s = v2 @ [LF]"
      by (auto simp: match_rest_Some)
    moreover have "s = op2 @ drop (length op2) s" using that(2) by (rule prefix_split)
    ultimately have "v2 \<noteq> [] \<and> LF \<notin> set v2 \<and> (s = op2 @ v2 \<or> s = op2 @ v2 @ [LF])"
      by metis
    with that(1) longer show False by blast
  qed
  from op consider "op = ''>''" | "op = ''<''" | "op = ''=''" | "op = ''^''" by blast
  then have "match_operators operators s = Some (op, v)"
  proof cases
    case 1
    then show ?thesis
      using match_operators_first [of op s v "[''>='', ''<='']" "[''<'', ''~>'', ''='', ''^'']"]
        pre rest two [of "''>=''"] s
      by (auto simp: operators_def)
  next
    case 2
    then show ?thesis
      using match_operators_first [of op s v "[''>='', ''<='', ''>'']" "[''~>'', ''='', ''^'']"]
        pre rest two [of "''<=''"] s
      by (auto simp: operators_def)
  next
    case 3
    then show ?thesis
      using match_operators_first [of op s v "[''>='', ''<='', ''>'', ''<'', ''~>'']" "[''^'']"]
        pre rest s
      by (auto simp: operators_def)
  next
    case 4
    then show ?thesis
      using match_operators_first [of op s v "[''>='', ''<='', ''>'', ''<'', ''~>'', ''='']" "[]"]
        pre rest s
      by (auto simp: operators_def)
  qed
  then show ?thesis by (simp add: VersionConstraint_parse_def)
qed

text \<open>
  C7, as amended. A version part is a non-empty text without line feed; one line feed may
  follow it at the end of the string. \<open>VersionConstraint_parse\<close> raises exactly when the
  string is not one of the seven operators followed by a version part. When the string is
  \<^verbatim>\<open>>=\<close>, \<^verbatim>\<open><=\<close> or \<^verbatim>\<open>~>\<close> followed by a version part, it returns that operator
  and that version part; otherwise, when the string is \<^verbatim>\<open>>\<close>, \<^verbatim>\<open><\<close>, \<^verbatim>\<open>=\<close> or
  \<^verbatim>\<open>^\<close> followed by a version part, it returns that operator and that version part.
  For a string without line feed this is the spec's pattern: the parse raises exactly when
  the string is not an operator followed by a non-empty rest.
\<close>

theorem VersionConstraint_parse_pattern:
  "((\<exists>e. VersionConstraint_parse s = Inl e) \<longleftrightarrow>
      \<not> (\<exists>op v. op \<in> {''>='', ''<='', ''>'', ''<'', ''~>'', ''='', ''^''} \<and> v \<noteq> [] \<and>
             LF \<notin> set v \<and> (s = op @ v \<or> s = op @ v @ [LF]))) \<and>
   (VersionConstraint_parse s = Inl e \<longrightarrow> e = ValueError (''Invalid version constraint: '' @ s)) \<and>
   ((op = ''>='' \<or> op = ''<='' \<or> op = ''~>'') \<and> v \<noteq> [] \<and> LF \<notin> set v \<and>
      (s = op @ v \<or> s = op @ v @ [LF]) \<longrightarrow>
      VersionConstraint_parse s = Inr (op, v)) \<and>
   ((op = ''>'' \<or> op = ''<'' \<or> op = ''='' \<or> op = ''^'') \<and> v \<noteq> [] \<and> LF \<notin> set v \<and>
      (s = op @ v \<or> s = op @ v @ [LF]) \<and>
      \<not> (\<exists>op2 v2. (op2 = ''>='' \<or> op2 = ''<='' \<or> op2 = ''~>'') \<and> v2 \<noteq> [] \<and>
             LF \<notin> set v2 \<and> (s = op2 @ v2 \<or> s = op2 @ v2 @ [LF])) \<longrightarrow>
      VersionConstraint_parse s = Inr (op, v)) \<and>
   (VersionConstraint_parse s = Inr (op, v) \<longrightarrow>
      op \<in> {''>='', ''<='', ''>'', ''<'', ''~>'', ''='', ''^''} \<and> v \<noteq> [] \<and> LF \<notin> set v \<and>
      (s = op @ v \<or> s = op @ v @ [LF])) \<and>
   (LF \<notin> set s \<longrightarrow> ((\<exists>e. VersionConstraint_parse s = Inl e) \<longleftrightarrow> \<not> matches_pattern s))"
proof -
  have ops: "set operators = {''>='', ''<='', ''>'', ''<'', ''~>'', ''='', ''^''}"
    by (simp add: operators_def)
  have fails: "(\<exists>e. VersionConstraint_parse s = Inl e) \<longleftrightarrow>
      \<not> (\<exists>op v. op \<in> {''>='', ''<='', ''>'', ''<'', ''~>'', ''='', ''^''} \<and> v \<noteq> [] \<and>
             LF \<notin> set v \<and> (s = op @ v \<or> s = op @ v @ [LF]))"
    using parse_Inl [of s] unfolding ops by blast
  have message: "e = ValueError (''Invalid version constraint: '' @ s)"
    if "VersionConstraint_parse s = Inl e"
    using that by (auto simp: VersionConstraint_parse_def split: option.splits)
  have returned: "op \<in> {''>='', ''<='', ''>'', ''<'', ''~>'', ''='', ''^''} \<and> v \<noteq> [] \<and>
      LF \<notin> set v \<and> (s = op @ v \<or> s = op @ v @ [LF])"
    if "VersionConstraint_parse s = Inr (op, v)"
    using parse_Inr [OF that] unfolding ops .
  from fails message returned parse_two_chars [of op v s] parse_one_char [of op v s]
    parse_no_LF [of s]
  show ?thesis by blast
qed

theorem VersionConstraint_parse_pattern_witness:
  "VersionConstraint_parse ''<=1.0.0'' = Inr (''<='', ''1.0.0'') \<and>
   VersionConstraint_parse ''<1.0.0'' = Inr (''<'', ''1.0.0'') \<and>
   \<not> matches_pattern ''1.0.0'' \<and>
   (\<exists>e. VersionConstraint_parse ''1.0.0'' = Inl e)"
proof -
  have lf: "LF \<notin> set ''1.0.0''" by (simp add: LF_def)
  have c: "\<not> matches_pattern ''1.0.0''" by code_simp
  have two: "(''<='' = ''>='' \<or> ''<='' = ''<='' \<or> ''<='' = ''~>'') \<and> ''1.0.0'' \<noteq> [] \<and>
      LF \<notin> set ''1.0.0'' \<and> (''<=1.0.0'' = ''<='' @ ''1.0.0'' \<or> ''<=1.0.0'' = ''<='' @ ''1.0.0'' @ [LF])"
    using lf by simp
  have no_longer: "\<not> (\<exists>op2 v2. (op2 = ''>='' \<or> op2 = ''<='' \<or> op2 = ''~>'') \<and> v2 \<noteq> [] \<and>
             LF \<notin> set v2 \<and> (''<1.0.0'' = op2 @ v2 \<or> ''<1.0.0'' = op2 @ v2 @ [LF]))"
    by auto
  have one: "(''<'' = ''>'' \<or> ''<'' = ''<'' \<or> ''<'' = ''='' \<or> ''<'' = ''^'') \<and> ''1.0.0'' \<noteq> [] \<and>
      LF \<notin> set ''1.0.0'' \<and> (''<1.0.0'' = ''<'' @ ''1.0.0'' \<or> ''<1.0.0'' = ''<'' @ ''1.0.0'' @ [LF])"
    using lf by simp
  have "VersionConstraint_parse ''<=1.0.0'' = Inr (''<='', ''1.0.0'')"
    using two VersionConstraint_parse_pattern [of "''<=1.0.0''" _ "''<=''" "''1.0.0''"] by blast
  moreover have "VersionConstraint_parse ''<1.0.0'' = Inr (''<'', ''1.0.0'')"
    using one no_longer VersionConstraint_parse_pattern [of "''<1.0.0''" _ "''<''" "''1.0.0''"]
    by blast
  moreover have "\<exists>e. VersionConstraint_parse ''1.0.0'' = Inl e"
    using lf c VersionConstraint_parse_pattern [of "''1.0.0''"] by blast
  ultimately show ?thesis using c by blast
qed

text \<open>
  C7, as stated, fails where the version part holds a line feed: the string is the operator
  \<^verbatim>\<open>>=\<close> followed by a non-empty rest, and the parse raises.
\<close>

theorem VersionConstraint_parse_line_feed_counterexample:
  "matches_pattern (''>=1'' @ [LF] @ ''2'') \<and>
   VersionConstraint_parse (''>=1'' @ [LF] @ ''2'') =
     Inl (ValueError (''Invalid version constraint: >=1'' @ [LF] @ ''2''))"
  by code_simp

subsection \<open>Parsing a version\<close>


lemma strip_suffix_no_LF:
  "LF \<notin> set s \<Longrightarrow> strip_suffix s = takeWhile (\<lambda>c. (c \<noteq> CHR ''-'' \<and> c \<noteq> CHR ''+'')) s"
  by (induction s) (auto simp: Let_def dropWhile_all)

lemma strip_suffix_no_sign:
  "\<forall>c \<in> set s. (c \<noteq> CHR ''-'' \<and> c \<noteq> CHR ''+'') \<Longrightarrow> strip_suffix s = s"
  by (induction s) (auto simp: Let_def)

lemma strip_suffix_append:
  "\<forall>c \<in> set core. (c \<noteq> CHR ''-'' \<and> c \<noteq> CHR ''+'') \<Longrightarrow> (x = CHR ''-'' \<or> x = CHR ''+'') \<Longrightarrow> LF \<notin> set suffix \<Longrightarrow>
     strip_suffix (core @ x # suffix) = core"
  by (induction core) (auto simp: Let_def dropWhile_all)

lemma split_dot_not_Nil: "split_dot s \<noteq> []"
  by (induction s) (auto split: list.splits)

lemma set_split_dot: "p \<in> set (split_dot s) \<Longrightarrow> set p \<subseteq> set s"
proof (induction s arbitrary: p)
  case Nil
  then show ?case by simp
next
  case (Cons a s)
  show ?case
  proof (cases "a = CHR ''.''")
    case True
    with Cons show ?thesis by auto
  next
    case False
    obtain q qs where q: "split_dot s = q # qs" using split_dot_not_Nil [of s] by (cases "split_dot s") auto
    with False Cons.prems have "p = a # q \<or> p \<in> set qs" by simp
    moreover have "set q \<subseteq> set s" using Cons.IH [of q] q by simp
    moreover have "p \<in> set qs \<Longrightarrow> set p \<subseteq> set s" using Cons.IH [of p] q by simp
    ultimately show ?thesis by auto
  qed
qed

lemma set_py_strip: "set (py_strip s) \<subseteq> set s"
  unfolding py_strip_def
  by (metis set_rev set_dropWhileD subsetI)

lemma int_literal_nonneg:
  assumes "int_literal s = Some n" "CHR ''-'' \<notin> set s"
  shows "0 \<le> n"
proof (cases "py_strip s")
  case Nil
  with assms show ?thesis by (simp add: int_literal_def)
next
  case (Cons c cs)
  then have "c \<in> set s" using set_py_strip [of s] by auto
  with assms(2) have "c \<noteq> CHR ''-''" by auto
  with assms(1) Cons show ?thesis
    by (auto simp: int_literal_def split: if_splits)
qed

lemma component_Inr:
  "component parts i = Inr x \<longleftrightarrow>
     (if i < length parts then int_literal (parts ! i) = Some x else x = 0)"
  by (auto simp: component_def py_int_def split: option.splits)

lemma component_Inl:
  "(\<exists>e. component parts i = Inl e) \<longleftrightarrow> i < length parts \<and> int_literal (parts ! i) = None"
  by (auto simp: component_def py_int_def split: option.splits)

lemma parse_version_Inr:
  "parse_version v = Inr (a, b, c) \<longleftrightarrow>
     component (split_dot (strip_suffix v)) 0 = Inr a \<and>
     component (split_dot (strip_suffix v)) 1 = Inr b \<and>
     component (split_dot (strip_suffix v)) 2 = Inr c"
  by (auto simp: parse_version_def Let_def split: sum.splits)

lemma parse_version_Inl:
  "(\<exists>e. parse_version v = Inl e) \<longleftrightarrow>
     (\<exists>i<3. \<exists>e. component (split_dot (strip_suffix v)) i = Inl e)"
proof -
  have "(\<exists>i<3::nat. P i) \<longleftrightarrow> P 0 \<or> P 1 \<or> P 2" for P
    by (auto simp: numeral_3_eq_3 less_Suc_eq numeral_2_eq_2)
  then show ?thesis
    by (auto simp: parse_version_def Let_def split: sum.splits)
qed


lemma parse_version_nonneg:
  assumes "LF \<notin> set v" "parse_version v = Inr (a, b, c)"
  shows "0 \<le> a \<and> 0 \<le> b \<and> 0 \<le> c"
proof -
  let ?parts = "split_dot (strip_suffix v)"
  have "CHR ''-'' \<notin> set (strip_suffix v)"
    using assms(1) by (auto simp: strip_suffix_no_LF dest: set_takeWhileD)
  then have no_minus: "CHR ''-'' \<notin> set p" if "p \<in> set ?parts" for p
    using set_split_dot [OF that] by auto
  have field: "0 \<le> x" if "component ?parts i = Inr x" for i x
  proof (cases "i < length ?parts")
    case True
    with that have "int_literal (?parts ! i) = Some x" by (simp add: component_Inr)
    moreover have "CHR ''-'' \<notin> set (?parts ! i)" using True no_minus by simp
    ultimately show ?thesis by (rule int_literal_nonneg)
  next
    case False
    with that show ?thesis by (simp add: component_Inr)
  qed
  from assms(2) show ?thesis using field by (auto simp: parse_version_Inr)
qed

lemma parse_version_suffix:
  assumes "\<forall>c \<in> set core. c \<noteq> CHR ''-'' \<and> c \<noteq> CHR ''+''" "x = CHR ''-'' \<or> x = CHR ''+''"
    "LF \<notin> set suffix"
  shows "parse_version (core @ x # suffix) = parse_version core"
  using assms by (simp add: parse_version_def strip_suffix_append strip_suffix_no_sign)

text \<open>
  C4, as amended. For a version string without line feed, \<open>parse_version\<close> drops
  everything from the first hyphen or plus sign on and splits the rest at the dots. It
  raises exactly when one of the first three fields is present and \<^verbatim>\<open>int\<close> rejects
  it; fields after the third are not read. When it returns, each of the three components
  is the integer of its field, or 0 when the field is missing, and none is negative.
  So a suffix that starts with a hyphen or plus sign does not change the result:
  \<^verbatim>\<open>1.2.3-beta+001\<close> parses as \<^verbatim>\<open>1.2.3\<close> does.
\<close>

theorem parse_version_fields:
  "(LF \<notin> set v \<longrightarrow>
      strip_suffix v = takeWhile (\<lambda>c. c \<noteq> CHR ''-'' \<and> c \<noteq> CHR ''+'') v) \<and>
   ((\<exists>e. parse_version v = Inl e) \<longleftrightarrow>
      (\<exists>i<3. i < length (split_dot (strip_suffix v)) \<and>
         int_literal (split_dot (strip_suffix v) ! i) = None)) \<and>
   (parse_version v = Inr (a, b, c) \<longleftrightarrow>
      (if 0 < length (split_dot (strip_suffix v))
       then int_literal (split_dot (strip_suffix v) ! 0) = Some a else a = 0) \<and>
      (if 1 < length (split_dot (strip_suffix v))
       then int_literal (split_dot (strip_suffix v) ! 1) = Some b else b = 0) \<and>
      (if 2 < length (split_dot (strip_suffix v))
       then int_literal (split_dot (strip_suffix v) ! 2) = Some c else c = 0)) \<and>
   (LF \<notin> set v \<and> parse_version v = Inr (a, b, c) \<longrightarrow> 0 \<le> a \<and> 0 \<le> b \<and> 0 \<le> c) \<and>
   ((\<forall>c \<in> set core. c \<noteq> CHR ''-'' \<and> c \<noteq> CHR ''+'') \<and> (x = CHR ''-'' \<or> x = CHR ''+'') \<and>
      LF \<notin> set suffix \<longrightarrow>
      parse_version (core @ x # suffix) = parse_version core) \<and>
   parse_version ''1.2.3-beta+001'' = parse_version ''1.2.3''"
proof -
  have "parse_version ''1.2.3-beta+001'' = parse_version ''1.2.3''"
    by (simp add: parse_version_examples)
  moreover have "(\<exists>e. parse_version v = Inl e) \<longleftrightarrow>
      (\<exists>i<3. i < length (split_dot (strip_suffix v)) \<and>
         int_literal (split_dot (strip_suffix v) ! i) = None)"
    by (simp add: parse_version_Inl component_Inl)
  moreover have "parse_version v = Inr (a, b, c) \<longleftrightarrow>
      (if 0 < length (split_dot (strip_suffix v))
       then int_literal (split_dot (strip_suffix v) ! 0) = Some a else a = 0) \<and>
      (if 1 < length (split_dot (strip_suffix v))
       then int_literal (split_dot (strip_suffix v) ! 1) = Some b else b = 0) \<and>
      (if 2 < length (split_dot (strip_suffix v))
       then int_literal (split_dot (strip_suffix v) ! 2) = Some c else c = 0)"
    unfolding parse_version_Inr component_Inr ..
  ultimately show ?thesis
    using strip_suffix_no_LF [of v] parse_version_nonneg [of v a b c]
      parse_version_suffix [of core x suffix]
    by blast
qed

theorem parse_version_fields_witness:
  "(\<exists>e. parse_version ''1.x'' = Inl e) \<and>
   strip_suffix ''1.2.3-rc1'' = ''1.2.3'' \<and>
   parse_version ''1.2.3+build'' = Inr (1, 2, 3)"
proof -
  have a: "LF \<notin> set ''1.2.3-rc1''" by (simp add: LF_def)
  have b: "(1::nat) < 3 \<and> 1 < length (split_dot (strip_suffix ''1.x'')) \<and>
      int_literal (split_dot (strip_suffix ''1.x'') ! 1) = None"
    by code_simp
  have c: "\<forall>c \<in> set ''1.2.3''. c \<noteq> CHR ''-'' \<and> c \<noteq> CHR ''+''" by simp
  have d: "LF \<notin> set ''build''" by (simp add: LF_def)
  have "\<exists>e. parse_version ''1.x'' = Inl e"
    using b parse_version_fields [of "''1.x''"] by blast
  moreover have "strip_suffix ''1.2.3-rc1'' = ''1.2.3''"
    using a parse_version_fields [of "''1.2.3-rc1''"] by simp
  moreover have "parse_version ''1.2.3+build'' = Inr (1, 2, 3)"
    using c d parse_version_fields [where core = "''1.2.3''" and x = "CHR ''+''" and suffix = "''build''"]
    by (simp add: parse_version_examples)
  ultimately show ?thesis by blast
qed

text \<open>
  C4, as stated, fails on a fourth field: \<^verbatim>\<open>x\<close> is a field of \<^verbatim>\<open>1.2.3.x\<close> and
  no integer, and the parse returns (1, 2, 3). With line feeds in the string a hyphen can
  stay, and a component can be negative.
\<close>

theorem parse_version_extra_field_counterexample:
  "split_dot (strip_suffix ''1.2.3.x'') = [''1'', ''2'', ''3'', ''x''] \<and>
   int_literal ''x'' = None \<and>
   parse_version ''1.2.3.x'' = Inr (1, 2, 3) \<and>
   int_literal (''-2'' @ [LF, LF]) = Some (- 2) \<and>
   parse_version (''1.-2'' @ [LF, LF]) = Inr (1, - 2, 0)"
  by code_simp

section \<open>Properties of the resolver\<close>

subsection \<open>The graph\<close>


lemma add_dependencies_edges:
  "add_dependencies n deps (f, r) = (f', r') \<Longrightarrow>
     (b \<in> f' a \<longleftrightarrow> b \<in> f a \<or> (a = n \<and> b \<noteq> [] \<and> (\<exists>d \<in> set deps. dep_name d = Some b))) \<and>
     (a \<in> r' b \<longleftrightarrow> a \<in> r b \<or> (a = n \<and> b \<noteq> [] \<and> (\<exists>d \<in> set deps. dep_name d = Some b)))"
proof (induction deps arbitrary: f r)
  case Nil
  then show ?case by simp
next
  case (Cons dep deps)
  show ?case
  proof (cases "dep_name dep")
    case None
    with Cons.prems have "add_dependencies n deps (f, r) = (f', r')" by simp
    from Cons.IH [OF this] None show ?thesis by auto
  next
    case (Some d)
    show ?thesis
    proof (cases "d = []")
      case True
      with Some Cons.prems have "add_dependencies n deps (f, r) = (f', r')" by simp
      from Cons.IH [OF this] Some True show ?thesis by auto
    next
      case False
      with Some Cons.prems
      have "add_dependencies n deps (f(n := insert d (f n)), r(d := insert n (r d))) = (f', r')"
        by simp
      from Cons.IH [OF this] Some False show ?thesis by auto
    qed
  qed
qed

lemma build_from_edges:
  "build_from plugins (f, r) = (f', r') \<Longrightarrow>
     (b \<in> f' a \<longleftrightarrow> b \<in> f a \<or>
        (b \<noteq> [] \<and> (\<exists>m. (a, m) \<in> set plugins \<and> (\<exists>d \<in> set (m_dependencies m). dep_name d = Some b)))) \<and>
     (a \<in> r' b \<longleftrightarrow> a \<in> r b \<or>
        (b \<noteq> [] \<and> (\<exists>m. (a, m) \<in> set plugins \<and> (\<exists>d \<in> set (m_dependencies m). dep_name d = Some b))))"
proof (induction plugins arbitrary: f r)
  case Nil
  then show ?case by simp
next
  case (Cons p plugins)
  obtain n m where p: "p = (n, m)" by (cases p)
  obtain f1 r1 where step: "add_dependencies n (m_dependencies m) (f, r) = (f1, r1)"
    by (cases "add_dependencies n (m_dependencies m) (f, r)")
  with Cons.prems p have "build_from plugins (f1, r1) = (f', r')" by simp
  from Cons.IH [OF this] add_dependencies_edges [OF step, of b a] p
  show ?case by auto
qed

text \<open>
  C8. The forward graph has the edge from \<open>a\<close> to \<open>b\<close> exactly when the registry holds
  a manifest under \<open>a\<close> with a dependency declaration named \<open>b\<close>, \<open>b\<close> not empty; the
  reverse graph has the same edges, turned around. Whether \<open>b\<close> is a key of the registry
  plays no part, and a declaration without a name adds no edge.
\<close>

theorem build_dependency_graph_edges:
  "(b \<in> fst (build_dependency_graph plugins) a \<longleftrightarrow>
      b \<noteq> [] \<and> (\<exists>m. (a, m) \<in> set plugins \<and> (\<exists>d \<in> set (m_dependencies m). dep_name d = Some b))) \<and>
   (a \<in> snd (build_dependency_graph plugins) b \<longleftrightarrow>
      b \<noteq> [] \<and> (\<exists>m. (a, m) \<in> set plugins \<and> (\<exists>d \<in> set (m_dependencies m). dep_name d = Some b)))"
proof -
  obtain f' r' where "build_from plugins (\<lambda>_. {}, \<lambda>_. {}) = (f', r')"
    by (cases "build_from plugins (\<lambda>_. {}, \<lambda>_. {})")
  from build_from_edges [OF this, of b a] this show ?thesis
    by (simp add: build_dependency_graph_def)
qed

theorem build_dependency_graph_edges_witness:
  "''ghost'' \<in> fst (build_dependency_graph
      [(''A'', \<lparr>m_name = Some ''A'', m_version = Some ''1.0.0'',
                m_dependencies = [\<lparr>dep_name = None, dep_version = None\<rparr>,
                                  \<lparr>dep_name = Some ''ghost'', dep_version = None\<rparr>]\<rparr>)]) ''A'' \<and>
   ''A'' \<in> snd (build_dependency_graph
      [(''A'', \<lparr>m_name = Some ''A'', m_version = Some ''1.0.0'',
                m_dependencies = [\<lparr>dep_name = None, dep_version = None\<rparr>,
                                  \<lparr>dep_name = Some ''ghost'', dep_version = None\<rparr>]\<rparr>)]) ''ghost'' \<and>
   fst (build_dependency_graph
      [(''A'', \<lparr>m_name = Some ''A'', m_version = Some ''1.0.0'',
                m_dependencies = [\<lparr>dep_name = None, dep_version = None\<rparr>,
                                  \<lparr>dep_name = Some ''ghost'', dep_version = None\<rparr>]\<rparr>)]) ''A'' = {''ghost''}"
proof -
  let ?m = "\<lparr>m_name = Some ''A'', m_version = Some ''1.0.0'',
                m_dependencies = [\<lparr>dep_name = None, dep_version = None\<rparr>,
                                  \<lparr>dep_name = Some ''ghost'', dep_version = None\<rparr>]\<rparr>"
  have ex: "''ghost'' \<noteq> [] \<and> (\<exists>m. (''A'', m) \<in> set [(''A'', ?m)] \<and>
      (\<exists>d \<in> set (m_dependencies m). dep_name d = Some ''ghost''))"
    by simp
  have "fst (build_dependency_graph [(''A'', ?m)]) ''A'' = {''ghost''}"
    by (simp add: build_dependency_graph_def)
  with ex build_dependency_graph_edges [of "''ghost''" "[(''A'', ?m)]" "''A''"]
  show ?thesis by blast
qed

subsection \<open>Validation\<close>


lemma py_int_error: "py_int s = Inl e \<Longrightarrow> \<exists>msg. e = ValueError msg"
  by (auto simp: py_int_def split: option.splits)

lemma component_error: "component parts i = Inl e \<Longrightarrow> \<exists>msg. e = ValueError msg"
  by (auto simp: component_def dest: py_int_error split: if_splits)

lemma parse_version_error: "parse_version v = Inl e \<Longrightarrow> \<exists>msg. e = ValueError msg"
  by (auto simp: parse_version_def Let_def dest: component_error split: sum.splits)

lemma satisfies_error: "satisfies self v = Inl e \<Longrightarrow> \<exists>msg. e = ValueError msg"
  by (auto simp: satisfies_def dest: parse_version_error split: sum.splits)

lemma Satisfies_error: "Satisfies c v = Inl e \<Longrightarrow> \<exists>msg. e = ValueError msg"
  by (auto simp: Satisfies_def VersionConstraint_init_def VersionConstraint_parse_def
      dest: satisfies_error split: sum.splits option.splits)

lemma validate_dependency_result:
  "\<exists>es. (\<forall>errors. validate_dependency plugins dep errors = Inr (errors @ es)) \<and>
        length es = (if dependency_fails plugins (empty_constraint_as_none dep) then 1 else 0)"
proof (cases "dep_name dep")
  case None
  then show ?thesis
    by (intro exI [of _ "[''Invalid dependency: missing name'']"])
      (simp add: validate_dependency_def dependency_fails_def empty_constraint_as_none_def)
next
  case name: (Some d)
  show ?thesis
  proof (cases "d = []")
    case True
    with name show ?thesis
      by (intro exI [of _ "[''Invalid dependency: missing name'']"])
        (simp add: validate_dependency_def dependency_fails_def empty_constraint_as_none_def)
  next
    case nonempty: False
    show ?thesis
    proof (cases "map_of plugins d")
      case None
      with name nonempty show ?thesis
        by (intro exI [of _ "[''Dependency '' @ [SQ] @ d @ [SQ] @ '' not found in registry'']"])
          (simp add: validate_dependency_def dependency_fails_def empty_constraint_as_none_def)
    next
      case target: (Some target)
      show ?thesis
      proof (cases "dep_version dep")
        case None
        with name nonempty target show ?thesis
          by (intro exI [of _ "[]"]) (simp add: validate_dependency_def dependency_fails_def empty_constraint_as_none_def)
      next
        case ver: (Some c)
        let ?pv = "case m_version target of None \<Rightarrow> ''0.0.0'' | Some v \<Rightarrow> v"
        show ?thesis
        proof (cases "c = []")
          case True
          with name nonempty target ver show ?thesis
            by (intro exI [of _ "[]"]) (simp add: validate_dependency_def dependency_fails_def empty_constraint_as_none_def)
        next
          case c: False
          show ?thesis
          proof (cases "Satisfies c ?pv")
            case (Inl e)
            then obtain msg where "e = ValueError msg" by (auto dest: Satisfies_error)
            with Inl name nonempty target ver c show ?thesis
              by (intro exI [of _ "[''Invalid version constraint for '' @ [SQ] @ d @ [SQ] @ '': '' @ msg]"])
                (simp add: validate_dependency_def dependency_fails_def empty_constraint_as_none_def)
          next
            case (Inr ok)
            show ?thesis
            proof (cases ok)
              case True
              with Inr name nonempty target ver c show ?thesis
                by (intro exI [of _ "[]"]) (simp add: validate_dependency_def dependency_fails_def empty_constraint_as_none_def)
            next
              case False
              with Inr name nonempty target ver c show ?thesis
                by (intro exI [of _ "[''Dependency '' @ [SQ] @ d @ [SQ] @ '' version '' @ [SQ] @
                                        ?pv @ [SQ] @ '' does not satisfy constraint '' @
                                        [SQ] @ c @ [SQ]]"])
                  (simp add: validate_dependency_def dependency_fails_def empty_constraint_as_none_def)
            qed
          qed
        qed
      qed
    qed
  qed
qed

lemma validate_loop_result:
  "\<exists>es. (\<forall>errors. validate_loop plugins deps errors = Inr (errors @ es)) \<and>
        length es = length (filter (dependency_fails plugins) (map empty_constraint_as_none deps))"
proof (induction deps)
  case Nil
  then show ?case by simp
next
  case (Cons dep deps)
  obtain e1 where e1: "\<And>errors. validate_dependency plugins dep errors = Inr (errors @ e1)"
    "length e1 = (if dependency_fails plugins (empty_constraint_as_none dep) then 1 else 0)"
    using validate_dependency_result [of plugins dep] by blast
  obtain e2 where e2: "\<And>errors. validate_loop plugins deps errors = Inr (errors @ e2)"
    "length e2 = length (filter (dependency_fails plugins) (map empty_constraint_as_none deps))"
    using Cons.IH by blast
  show ?case
    by (intro exI [of _ "e1 @ e2"]) (simp add: e1 e2)
qed

lemma validate_loop_append:
  assumes "validate_loop plugins ds1 [] = Inr e1" "validate_loop plugins ds2 [] = Inr e2"
  shows "validate_loop plugins (ds1 @ ds2) [] = Inr (e1 @ e2)"
proof -
  have step: "validate_loop plugins (xs @ ys) errors =
      (case validate_loop plugins xs errors of Inl e \<Rightarrow> Inl e | Inr es \<Rightarrow> validate_loop plugins ys es)"
    for xs ys errors
    by (induction xs arbitrary: errors) (auto split: sum.splits)
  obtain es where es: "\<And>errors. validate_loop plugins ds2 errors = Inr (errors @ es)"
    using validate_loop_result [of plugins ds2] by blast
  with assms(2) have "es = e2" by (metis append_Nil sum.inject(2))
  with assms(1) es show ?thesis by (simp add: step)
qed


text \<open>
  C6, as amended. \<open>validate_dependencies\<close> always returns, with one error for each
  dependency declaration that fails once an empty constraint string is read as no
  constraint, and it is valid exactly when there is no error. The errors of a list of
  declarations are the errors of its first part followed by those of the rest, so nothing
  is cut short after a failure. A manifest whose only declaration names a plugin that is
  not in the registry gets the one error that the dependency was not found.
\<close>

theorem validate_dependencies_accumulates:
  "(\<exists>errors. validate_dependencies plugins manifest = Inr (errors = [], errors) \<and>
      length errors =
        length (filter (dependency_fails plugins)
                  (map empty_constraint_as_none (m_dependencies manifest)))) \<and>
   (\<exists>e1 e2.
      validate_dependencies plugins (manifest\<lparr>m_dependencies := ds1\<rparr>) = Inr (e1 = [], e1) \<and>
      validate_dependencies plugins (manifest\<lparr>m_dependencies := ds2\<rparr>) = Inr (e2 = [], e2) \<and>
      validate_dependencies plugins (manifest\<lparr>m_dependencies := ds1 @ ds2\<rparr>) =
        Inr (e1 @ e2 = [], e1 @ e2)) \<and>
   (m_dependencies manifest = [dep] \<and> dep_name dep = Some d \<and> d \<noteq> [] \<and>
      d \<notin> fst ` set plugins \<longrightarrow>
      validate_dependencies plugins manifest =
        Inr (False, [''Dependency '' @ [SQ] @ d @ [SQ] @ '' not found in registry'']))"
proof -
  have total: "\<exists>errors. validate_loop plugins deps [] = Inr errors \<and>
      length errors =
        length (filter (dependency_fails plugins) (map empty_constraint_as_none deps))" for deps
    using validate_loop_result [of plugins deps] by auto
  have first: "\<exists>errors. validate_dependencies plugins manifest = Inr (errors = [], errors) \<and>
      length errors =
        length (filter (dependency_fails plugins)
                  (map empty_constraint_as_none (m_dependencies manifest)))"
    using total [of "m_dependencies manifest"] by (auto simp: validate_dependencies_def)
  obtain e1 where e1: "validate_loop plugins ds1 [] = Inr e1" using total by blast
  obtain e2 where e2: "validate_loop plugins ds2 [] = Inr e2" using total by blast
  have second: "\<exists>e1 e2.
      validate_dependencies plugins (manifest\<lparr>m_dependencies := ds1\<rparr>) = Inr (e1 = [], e1) \<and>
      validate_dependencies plugins (manifest\<lparr>m_dependencies := ds2\<rparr>) = Inr (e2 = [], e2) \<and>
      validate_dependencies plugins (manifest\<lparr>m_dependencies := ds1 @ ds2\<rparr>) =
        Inr (e1 @ e2 = [], e1 @ e2)"
    using e1 e2 validate_loop_append [OF e1 e2]
    by (intro exI [of _ e1] exI [of _ e2]) (simp add: validate_dependencies_def)
  have third: "validate_dependencies plugins manifest =
        Inr (False, [''Dependency '' @ [SQ] @ d @ [SQ] @ '' not found in registry''])"
    if "m_dependencies manifest = [dep]" "dep_name dep = Some d" "d \<noteq> []"
      "d \<notin> fst ` set plugins"
  proof -
    from that(4) have "map_of plugins d = None" by (simp add: map_of_eq_None_iff)
    with that(1-3) show ?thesis
      by (simp add: validate_dependencies_def validate_dependency_def)
  qed
  from first second third show ?thesis by blast
qed

theorem validate_dependencies_accumulates_witness:
  "validate_dependencies []
     \<lparr>m_name = Some ''A'', m_version = Some ''1.0.0'',
      m_dependencies = [\<lparr>dep_name = Some ''B'', dep_version = Some ''>=1.0.0''\<rparr>]\<rparr> =
     Inr (False, [''Dependency '' @ [SQ] @ ''B'' @ [SQ] @ '' not found in registry''])"
proof -
  let ?dep = "\<lparr>dep_name = Some ''B'', dep_version = Some ''>=1.0.0''\<rparr>"
  let ?m = "\<lparr>m_name = Some ''A'', m_version = Some ''1.0.0'', m_dependencies = [?dep]\<rparr>"
  have "m_dependencies ?m = [?dep] \<and> dep_name ?dep = Some ''B'' \<and> ''B'' \<noteq> [] \<and>
      ''B'' \<notin> fst ` set ([] :: registry)"
    by simp
  with validate_dependencies_accumulates [of "[]" ?m _ _ ?dep "''B''"]
  show ?thesis by blast
qed

text \<open>
  C6, as stated, fails on an empty constraint string: the declaration has a version
  constraint that does not parse, so it fails in the spec's sense, and
  \<open>validate_dependencies\<close> reports no error for it.
\<close>

theorem validate_empty_constraint_counterexample:
  "VersionConstraint_parse [] = Inl (ValueError ''Invalid version constraint: '') \<and>
   dependency_fails
     [(''B'', \<lparr>m_name = Some ''B'', m_version = Some ''1.0.0'', m_dependencies = []\<rparr>)]
     \<lparr>dep_name = Some ''B'', dep_version = Some []\<rparr> \<and>
   validate_dependencies
     [(''B'', \<lparr>m_name = Some ''B'', m_version = Some ''1.0.0'', m_dependencies = []\<rparr>)]
     \<lparr>m_name = Some ''A'', m_version = Some ''1.0.0'',
      m_dependencies = [\<lparr>dep_name = Some ''B'', dep_version = Some []\<rparr>]\<rparr> =
     Inr (True, [])"
proof -
  have a: "VersionConstraint_parse [] = Inl (ValueError ''Invalid version constraint: '')"
    by code_simp
  then have "Satisfies [] ''1.0.0'' = Inl (ValueError ''Invalid version constraint: '')"
    by (simp add: Satisfies_def VersionConstraint_init_def)
  then have "dependency_fails
     [(''B'', \<lparr>m_name = Some ''B'', m_version = Some ''1.0.0'', m_dependencies = []\<rparr>)]
     \<lparr>dep_name = Some ''B'', dep_version = Some []\<rparr>"
    by (simp add: dependency_fails_def)
  moreover have "validate_dependencies
     [(''B'', \<lparr>m_name = Some ''B'', m_version = Some ''1.0.0'', m_dependencies = []\<rparr>)]
     \<lparr>m_name = Some ''A'', m_version = Some ''1.0.0'',
      m_dependencies = [\<lparr>dep_name = Some ''B'', dep_version = Some []\<rparr>]\<rparr> =
     Inr (True, [])"
    by (simp add: validate_dependencies_def validate_dependency_def)
  ultimately show ?thesis using a by blast
qed

lemma map_of_default_versions:
  "map_of (default_versions plugins) d = map_option with_default_version (map_of plugins d)"
  by (induction plugins) (auto simp: default_versions_def)

lemma validate_dependency_default:
  "validate_dependency (default_versions plugins) dep errors = validate_dependency plugins dep errors"
proof -
  have "(case m_version (with_default_version t) of None \<Rightarrow> ''0.0.0'' | Some v \<Rightarrow> v) =
      (case m_version t of None \<Rightarrow> ''0.0.0'' | Some v \<Rightarrow> v)" for t
    by (simp add: with_default_version_def split: option.splits)
  then show ?thesis
    by (simp add: validate_dependency_def map_of_default_versions
        split: option.splits cong: option.case_cong)
qed

lemma validate_loop_default:
  "validate_loop (default_versions plugins) deps errors = validate_loop plugins deps errors"
  by (induction deps arbitrary: errors)
    (simp_all add: validate_dependency_default split: sum.splits)

text \<open>
  C10. A registered manifest without a version is validated against as if its version
  were \<^verbatim>\<open>0.0.0\<close>: writing that version into the registry changes no result. The
  constraint \<^verbatim>\<open>>=1.0.0\<close> on such a plugin gives the error of an unsatisfied version
  that names the version \<^verbatim>\<open>0.0.0\<close>.
\<close>

theorem validate_missing_version_is_zero:
  "validate_dependencies (default_versions plugins) manifest =
     validate_dependencies plugins manifest \<and>
   (m_dependencies manifest = [dep] \<and> dep_name dep = Some d \<and> d \<noteq> [] \<and>
      dep_version dep = Some ''>=1.0.0'' \<and> map_of plugins d = Some target \<and>
      m_version target = None \<longrightarrow>
      validate_dependencies plugins manifest =
        Inr (False,
          [''Dependency '' @ [SQ] @ d @ [SQ] @ '' version '' @ [SQ] @ ''0.0.0'' @ [SQ] @
           '' does not satisfy constraint '' @ [SQ] @ ''>=1.0.0'' @ [SQ]]))"
proof -
  have s: "Satisfies ''>=1.0.0'' ''0.0.0'' = Inr False" by code_simp
  have "validate_dependencies plugins manifest =
        Inr (False,
          [''Dependency '' @ [SQ] @ d @ [SQ] @ '' version '' @ [SQ] @ ''0.0.0'' @ [SQ] @
           '' does not satisfy constraint '' @ [SQ] @ ''>=1.0.0'' @ [SQ]])"
    if "m_dependencies manifest = [dep]" "dep_name dep = Some d" "d \<noteq> []"
      "dep_version dep = Some ''>=1.0.0''" "map_of plugins d = Some target"
      "m_version target = None"
    using that s by (simp add: validate_dependencies_def validate_dependency_def)
  then show ?thesis
    by (simp add: validate_dependencies_def validate_loop_default)
qed

theorem validate_missing_version_is_zero_witness:
  "validate_dependencies
     [(''B'', \<lparr>m_name = Some ''B'', m_version = None, m_dependencies = []\<rparr>)]
     \<lparr>m_name = Some ''A'', m_version = Some ''1.0.0'',
      m_dependencies = [\<lparr>dep_name = Some ''B'', dep_version = Some ''>=1.0.0''\<rparr>]\<rparr> =
     Inr (False,
       [''Dependency '' @ [SQ] @ ''B'' @ [SQ] @ '' version '' @ [SQ] @ ''0.0.0'' @ [SQ] @
        '' does not satisfy constraint '' @ [SQ] @ ''>=1.0.0'' @ [SQ]])"
proof -
  let ?t = "\<lparr>m_name = Some ''B'', m_version = None, m_dependencies = []\<rparr>"
  let ?dep = "\<lparr>dep_name = Some ''B'', dep_version = Some ''>=1.0.0''\<rparr>"
  let ?m = "\<lparr>m_name = Some ''A'', m_version = Some ''1.0.0'', m_dependencies = [?dep]\<rparr>"
  have "m_dependencies ?m = [?dep] \<and> dep_name ?dep = Some ''B'' \<and> ''B'' \<noteq> [] \<and>
      dep_version ?dep = Some ''>=1.0.0'' \<and> map_of [(''B'', ?t)] ''B'' = Some ?t \<and>
      m_version ?t = None"
    by simp
  with validate_missing_version_is_zero [of "[(''B'', ?t)]" ?m ?dep "''B''" ?t]
  show ?thesis by blast
qed

subsection \<open>The traversal\<close>


lemma index_of_append:
  "x \<notin> set p \<Longrightarrow> index_of (p @ x # r) x = Some (length p)"
  by (induction p) auto

lemma index_of_Some: "x \<in> set xs \<Longrightarrow> \<exists>i. index_of xs x = Some i"
  by (induction xs) auto

lemma dfs_inv_enter:
  "dfs_inv st \<Longrightarrow>
     dfs_inv (st\<lparr>visited := insert node (visited st), rec_stack := insert node (rec_stack st),
                 path := path st @ [node]\<rparr>)"
  by (auto simp: dfs_inv_def)

lemma card_after_visit:
  assumes "finite N" "node \<in> N" "node \<notin> V" "card (N - V) \<le> Suc k"
  shows "card (N - insert node V) \<le> k"
proof -
  have "N - insert node V = (N - V) - {node}" by auto
  moreover have "node \<in> N - V" using assms by simp
  ultimately have "card (N - insert node V) = card (N - V) - 1"
    using assms(1) by (simp add: card_Diff_singleton)
  with assms(4) show ?thesis by simp
qed

lemma card_mono_visited:
  assumes "finite N" "V \<subseteq> V'" "card (N - V) \<le> k"
  shows "card (N - V') \<le> k"
proof -
  have "N - V' \<subseteq> N - V" using assms(2) by auto
  then have "card (N - V') \<le> card (N - V)" using assms(1) by (simp add: card_mono)
  with assms(3) show ?thesis by simp
qed


lemma loop_post_refl: "dfs_inv st \<Longrightarrow> loop_post st st"
  by (simp add: loop_post_def)

lemma loop_post_after_dfs:
  assumes "dfs_post n st st1" "loop_post st1 st2"
  shows "loop_post st st2"
proof -
  from assms obtain cs1 cs2 where "cycles st1 = cycles st @ cs1" "cycles st2 = cycles st1 @ cs2"
    by (auto simp: dfs_post_def loop_post_def)
  then have "cycles st2 = cycles st @ (cs1 @ cs2)" by simp
  then have "\<exists>cs. cycles st2 = cycles st @ cs" ..
  with assms show ?thesis by (auto simp: dfs_post_def loop_post_def)
qed

lemma loop_post_after_cycle:
  assumes "loop_post (st\<lparr>cycles := cycles st @ [c]\<rparr>) st2"
  shows "loop_post st st2"
proof -
  from assms obtain cs where "cycles st2 = (cycles st @ [c]) @ cs"
    by (auto simp: loop_post_def)
  then have "cycles st2 = cycles st @ (c # cs)" by simp
  then have "\<exists>cs. cycles st2 = cycles st @ cs" ..
  with assms show ?thesis by (auto simp: loop_post_def)
qed

lemma loop_from_dfs:
  assumes fin: "finite N"
    and mono: "\<And>cs cs'. found cs \<Longrightarrow> found (cs @ cs')"
    and call: "\<And>node st. dfs_inv st \<Longrightarrow> cycle_inv T found st \<Longrightarrow> node \<in> N \<Longrightarrow>
        node \<notin> visited st \<Longrightarrow> card (N - visited st) \<le> k \<Longrightarrow>
        \<exists>st'. dfs k g node st = Inr st' \<and> dfs_post node st st' \<and> cycle_inv T found st'"
  shows "dfs_inv st \<Longrightarrow> cycle_inv T found st \<Longrightarrow> set ns \<subseteq> N \<Longrightarrow>
      card (N - visited st) \<le> k \<Longrightarrow>
      \<exists>st'. dfs_loop k g ns st = Inr st' \<and> loop_post st st' \<and> cycle_inv T found st'"
proof (induction ns arbitrary: st)
  case Nil
  then show ?case by (simp add: loop_post_refl)
next
  case (Cons n rest)
  from Cons.prems have n: "n \<in> N" and rest: "set rest \<subseteq> N" by auto
  show ?case
  proof (cases "n \<in> visited st")
    case False
    from call [OF Cons.prems(1,2) n False Cons.prems(4)]
    obtain st1 where st1: "dfs k g n st = Inr st1" "dfs_post n st st1" "cycle_inv T found st1"
      by blast
    from st1(2) have inv1: "dfs_inv st1" and sub: "visited st \<subseteq> visited st1"
      by (auto simp: dfs_post_def)
    have "card (N - visited st1) \<le> k"
      using card_mono_visited [OF fin sub Cons.prems(4)] .
    from Cons.IH [OF inv1 st1(3) rest this]
    obtain st2 where st2: "dfs_loop k g rest st1 = Inr st2" "loop_post st1 st2"
        "cycle_inv T found st2"
      by blast
    have "dfs_loop k g (n # rest) st = Inr st2" using False st1(1) st2(1) by simp
    moreover have "loop_post st st2" using loop_post_after_dfs [OF st1(2) st2(2)] .
    ultimately show ?thesis using st2(3) by blast
  next
    case True
    show ?thesis
    proof (cases "n \<in> rec_stack st")
      case on_stack: True
      with Cons.prems(1) have "n \<in> set (path st)" by (simp add: dfs_inv_def)
      then obtain i where i: "index_of (path st) n = Some i"
        using index_of_Some [of n "path st"] by auto
      let ?st1 = "st\<lparr>cycles := cycles st @ [drop i (path st) @ [n]]\<rparr>"
      have inv1: "dfs_inv ?st1" using Cons.prems(1) by (simp add: dfs_inv_def)
      have cyc1: "cycle_inv T found ?st1"
        using Cons.prems(2) mono [of "cycles st" "[drop i (path st) @ [n]]"]
        by (auto simp: cycle_inv_def)
      have "card (N - visited ?st1) \<le> k" using Cons.prems(4) by simp
      from Cons.IH [OF inv1 cyc1 rest this]
      obtain st2 where st2: "dfs_loop k g rest ?st1 = Inr st2" "loop_post ?st1 st2"
          "cycle_inv T found st2"
        by blast
      have "dfs_loop k g (n # rest) st = Inr st2" using True on_stack i st2(1) by simp
      moreover have "loop_post st st2" using loop_post_after_cycle [OF st2(2)] .
      ultimately show ?thesis using st2(3) by blast
    next
      case False
      from Cons.IH [OF Cons.prems(1,2) rest Cons.prems(4)]
      obtain st2 where st2: "dfs_loop k g rest st = Inr st2" "loop_post st st2"
          "cycle_inv T found st2"
        by blast
      have "dfs_loop k g (n # rest) st = Inr st2" using True False st2(1) by simp
      with st2 show ?thesis by blast
    qed
  qed
qed

lemma dfs_from_loop:
  assumes fin: "finite N" and closed: "\<And>n. n \<in> N \<Longrightarrow> set (g n) \<subseteq> N"
    and loop: "\<And>ns st. dfs_inv st \<Longrightarrow> cycle_inv T found st \<Longrightarrow> set ns \<subseteq> N \<Longrightarrow>
        card (N - visited st) \<le> k \<Longrightarrow>
        \<exists>st'. dfs_loop k g ns st = Inr st' \<and> loop_post st st' \<and> cycle_inv T found st'"
    and pre: "dfs_inv st" "node \<in> N" "node \<notin> visited st" "card (N - visited st) \<le> Suc k"
    and ordinary: "node \<notin> T \<and> T \<inter> visited st = {} \<or> found (cycles st)"
  shows "\<exists>st'. dfs (Suc k) g node st = Inr st' \<and> dfs_post node st st' \<and> cycle_inv T found st'"
proof -
  let ?st1 = "st\<lparr>visited := insert node (visited st), rec_stack := insert node (rec_stack st),
                 path := path st @ [node]\<rparr>"
  have inv1: "dfs_inv ?st1" using pre(1) by (rule dfs_inv_enter)
  have cyc1: "cycle_inv T found ?st1" using ordinary by (auto simp: cycle_inv_def)
  have card1: "card (N - visited ?st1) \<le> k"
    using card_after_visit [OF fin pre(2,3,4)] by simp
  from loop [OF inv1 cyc1 closed [OF pre(2)] card1]
  obtain st2 where st2: "dfs_loop k g (g node) ?st1 = Inr st2" "loop_post ?st1 st2"
      "cycle_inv T found st2"
    by blast
  from st2(2) have p2: "path st2 = path st @ [node]"
    and r2: "rec_stack st2 = insert node (rec_stack st)"
    and v2: "insert node (visited st) \<subseteq> visited st2"
    and c2: "\<exists>cs. cycles st2 = cycles st @ cs"
    by (auto simp: loop_post_def)
  let ?st' = "st2\<lparr>rec_stack := rec_stack st2 - {node}, path := butlast (path st2)\<rparr>"
  have run: "dfs (Suc k) g node st = Inr ?st'"
    using st2(1) p2 r2 by simp
  have "node \<notin> rec_stack st" using pre(1,3) by (auto simp: dfs_inv_def)
  then have r': "rec_stack ?st' = rec_stack st" using r2 by auto
  have p': "path ?st' = path st" using p2 by simp
  have "dfs_inv ?st'" using pre(1) v2 r' p' by (auto simp: dfs_inv_def)
  then have "dfs_post node st ?st'" using r' p' v2 c2 by (simp add: dfs_post_def)
  moreover have "cycle_inv T found ?st'" using st2(3) by (simp add: cycle_inv_def)
  ultimately show ?thesis using run by blast
qed


lemma dfs_total:
  assumes fin: "finite N" and closed: "\<And>n. n \<in> N \<Longrightarrow> set (g n) \<subseteq> N"
    and mono: "\<And>cs cs'. found cs \<Longrightarrow> found (cs @ cs')"
    and special: "\<And>k node st. node \<in> T \<Longrightarrow> node \<in> N \<Longrightarrow> dfs_inv st \<Longrightarrow>
        T \<inter> visited st = {} \<Longrightarrow> card (N - visited st) \<le> k \<Longrightarrow>
        \<exists>st'. dfs k g node st = Inr st' \<and> dfs_post node st st' \<and> found (cycles st')"
  shows "dfs_inv st \<Longrightarrow> cycle_inv T found st \<Longrightarrow> node \<in> N \<Longrightarrow> node \<notin> visited st \<Longrightarrow>
      card (N - visited st) \<le> k \<Longrightarrow>
      \<exists>st'. dfs k g node st = Inr st' \<and> dfs_post node st st' \<and> cycle_inv T found st'"
proof (induction k arbitrary: node st)
  case 0
  then have "node \<in> N - visited st" by simp
  with fin have "card (N - visited st) \<noteq> 0" by auto
  with 0 show ?case by simp
next
  case (Suc k)
  have loop: "\<exists>st'. dfs_loop k g ns st = Inr st' \<and> loop_post st st' \<and> cycle_inv T found st'"
    if "dfs_inv st" "cycle_inv T found st" "set ns \<subseteq> N" "card (N - visited st) \<le> k"
    for ns st
    using loop_from_dfs [of N found T k g, OF fin mono Suc.IH that] .
  show ?case
  proof (cases "node \<notin> T \<and> T \<inter> visited st = {} \<or> found (cycles st)")
    case True
    from dfs_from_loop [of N g T found k, OF fin closed loop Suc.prems(1,3,4,5) True]
    show ?thesis .
  next
    case False
    with Suc.prems(2) have t: "node \<in> T" "T \<inter> visited st = {}"
      by (auto simp: cycle_inv_def)
    from special [OF t(1) Suc.prems(3,1) t(2) Suc.prems(5)]
    obtain st' where "dfs (Suc k) g node st = Inr st'" "dfs_post node st st'" "found (cycles st')"
      by blast
    then show ?thesis by (auto simp: cycle_inv_def)
  qed
qed

lemma dfs_roots_total:
  assumes fin: "finite N"
    and call: "\<And>node st. dfs_inv st \<Longrightarrow> cycle_inv T found st \<Longrightarrow> node \<in> N \<Longrightarrow>
        node \<notin> visited st \<Longrightarrow> card (N - visited st) \<le> k \<Longrightarrow>
        \<exists>st'. dfs k g node st = Inr st' \<and> dfs_post node st st' \<and> cycle_inv T found st'"
  shows "dfs_inv st \<Longrightarrow> cycle_inv T found st \<Longrightarrow> set nodes \<subseteq> N \<Longrightarrow>
      card (N - visited st) \<le> k \<Longrightarrow>
      \<exists>st'. dfs_roots k g nodes st = Inr st' \<and> loop_post st st' \<and> cycle_inv T found st' \<and>
        set nodes \<subseteq> visited st'"
proof (induction nodes arbitrary: st)
  case Nil
  then show ?case by (simp add: loop_post_refl)
next
  case (Cons n rest)
  from Cons.prems have n: "n \<in> N" and rest: "set rest \<subseteq> N" by auto
  show ?case
  proof (cases "n \<in> visited st")
    case False
    from call [OF Cons.prems(1,2) n False Cons.prems(4)]
    obtain st1 where st1: "dfs k g n st = Inr st1" "dfs_post n st st1" "cycle_inv T found st1"
      by blast
    from st1(2) have inv1: "dfs_inv st1" and sub: "visited st \<subseteq> visited st1"
      and n1: "n \<in> visited st1"
      by (auto simp: dfs_post_def)
    have "card (N - visited st1) \<le> k"
      using card_mono_visited [OF fin sub Cons.prems(4)] .
    from Cons.IH [OF inv1 st1(3) rest this]
    obtain st2 where st2: "dfs_roots k g rest st1 = Inr st2" "loop_post st1 st2"
        "cycle_inv T found st2" "set rest \<subseteq> visited st2"
      by blast
    have "dfs_roots k g (n # rest) st = Inr st2" using False st1(1) st2(1) by simp
    moreover have "loop_post st st2" using loop_post_after_dfs [OF st1(2) st2(2)] .
    moreover have "n \<in> visited st2" using n1 st2(2) by (auto simp: loop_post_def)
    ultimately show ?thesis using st2(3,4) by auto
  next
    case True
    from Cons.IH [OF Cons.prems(1,2) rest Cons.prems(4)]
    obtain st2 where st2: "dfs_roots k g rest st = Inr st2" "loop_post st st2"
        "cycle_inv T found st2" "set rest \<subseteq> visited st2"
      by blast
    have "dfs_roots k g (n # rest) st = Inr st2" using True st2(1) by simp
    moreover have "n \<in> visited st2" using True st2(2) by (auto simp: loop_post_def)
    ultimately show ?thesis using st2(2,3,4) by auto
  qed
qed

lemma triangle_dfs:
  assumes g: "g X = [Y]" "g Y = [Z]" "g Z = [X]" and d: "X \<noteq> Y" "Y \<noteq> Z" "X \<noteq> Z"
    and inv: "dfs_inv st" and unv: "X \<notin> visited st" "Y \<notin> visited st" "Z \<notin> visited st"
  shows "\<exists>st'. dfs (Suc (Suc (Suc k))) g X st = Inr st' \<and> dfs_post X st st' \<and>
      cycles st' = cycles st @ [[X, Y, Z, X]]"
proof -
  from inv unv have np: "X \<notin> set (path st)" "Y \<notin> set (path st)" "Z \<notin> set (path st)"
    and rs: "rec_stack st = set (path st)" and sub: "set (path st) \<subseteq> visited st"
    by (auto simp: dfs_inv_def)
  have idx: "index_of (path st @ [X, Y, Z]) X = Some (length (path st))"
    using index_of_append [OF np(1), of "[Y, Z]"] by simp
  have r: "insert X (insert Y (insert Z (set (path st)))) - {Z} - {Y} - {X} = set (path st)"
    using np by auto
  show ?thesis
    using g d unv np rs sub idx r
    by (simp add: dfs_post_def dfs_inv_def insert_Diff_if subset_insertI2 butlast_append)
qed

lemma forward_edges:
  "fst (build_dependency_graph plugins) a =
     {b. b \<noteq> [] \<and> (\<exists>m. (a, m) \<in> set plugins \<and> (\<exists>d \<in> set (m_dependencies m). dep_name d = Some b))}"
proof -
  obtain f' r' where b: "build_from plugins (\<lambda>_. {}, \<lambda>_. {}) = (f', r')"
    by (cases "build_from plugins (\<lambda>_. {}, \<lambda>_. {})")
  have "x \<in> f' a \<longleftrightarrow>
      x \<noteq> [] \<and> (\<exists>m. (a, m) \<in> set plugins \<and> (\<exists>d \<in> set (m_dependencies m). dep_name d = Some x))"
    for x
    using build_from_edges [OF b, of x a] by simp
  with b show ?thesis by (auto simp: build_dependency_graph_def)
qed

lemma finite_graph_nodes: "finite (graph_nodes plugins)"
  unfolding graph_nodes_def by (rule finite_set)

lemma set_map_filter_dep_name:
  "set (List.map_filter dep_name deps) = {b. \<exists>d \<in> set deps. dep_name d = Some b}"
  by (induction deps) (auto split: option.splits)

lemma keys_graph_nodes: "set (map fst plugins) \<subseteq> graph_nodes plugins"
  by (auto simp: graph_nodes_def)

lemma edges_graph_nodes:
  "fst (build_dependency_graph plugins) a \<subseteq> graph_nodes plugins"
proof
  fix b
  assume "b \<in> fst (build_dependency_graph plugins) a"
  then obtain m d where "(a, m) \<in> set plugins" "d \<in> set (m_dependencies m)" "dep_name d = Some b"
    by (auto simp: forward_edges)
  then have "b \<in> set (concat (map (\<lambda>(n, m). List.map_filter dep_name (m_dependencies m)) plugins))"
    by (force simp: set_map_filter_dep_name)
  then show "b \<in> graph_nodes plugins" by (simp add: graph_nodes_def)
qed

lemma singleton_list: "set xs = {b} \<Longrightarrow> distinct xs \<Longrightarrow> xs = [b]"
  by (cases xs) (auto simp: subset_singleton_iff)

lemma dict_set_keys: "fst ` set (dict_set kvs k v) = insert k (fst ` set kvs)"
proof (induction kvs)
  case Nil
  show ?case by simp
next
  case (Cons p kvs)
  obtain k' v' where p: "p = (k', v')" by (cases p)
  show ?case using Cons.IH by (cases "k' = k") (auto simp: p)
qed

lemma dict_set_distinct: "distinct (map fst kvs) \<Longrightarrow> distinct (map fst (dict_set kvs k v))"
proof (induction kvs)
  case Nil
  show ?case by simp
next
  case (Cons p kvs)
  obtain k' v' where p: "p = (k', v')" by (cases p)
  show ?case using Cons dict_set_keys [of kvs k v] by (cases "k' = k") (auto simp: p)
qed

lemma load_file_keys:
  "distinct (map fst (fst acc)) \<and> [] \<notin> set (map fst (fst acc)) \<Longrightarrow>
     distinct (map fst (fst (load_file acc entry))) \<and> [] \<notin> set (map fst (fst (load_file acc entry)))"
proof -
  obtain plugins warnings where acc: "acc = (plugins, warnings)" by (cases acc)
  obtain f content where entry: "entry = (f, content)" by (cases entry)
  assume "distinct (map fst (fst acc)) \<and> [] \<notin> set (map fst (fst acc))"
  with acc entry show ?thesis
    using dict_set_keys [of plugins] dict_set_distinct [of plugins]
    by (cases content) (auto split: option.splits)
qed

lemma foldl_load_file_keys:
  "distinct (map fst (fst acc)) \<and> [] \<notin> set (map fst (fst acc)) \<Longrightarrow>
     distinct (map fst (fst (foldl load_file acc files))) \<and>
     [] \<notin> set (map fst (fst (foldl load_file acc files)))"
proof (induction files arbitrary: acc)
  case Nil
  then show ?case by simp
next
  case (Cons entry files)
  from Cons.IH [OF load_file_keys [OF Cons.prems]] show ?case by simp
qed

lemma load_plugins_keys:
  "distinct (map fst (fst (load_plugins dir))) \<and> [] \<notin> set (map fst (fst (load_plugins dir)))"
proof (cases dir)
  case NoDirectory
  then show ?thesis by simp
next
  case (Directory files)
  then show ?thesis using foldl_load_file_keys [of "([], [])" files] by simp
qed

lemma detect_total:
  assumes order: "iteration_of (fst (build_dependency_graph plugins)) neighbors"
    and depth: "card (graph_nodes plugins) \<le> depth"
    and mono: "\<And>cs cs'. found cs \<Longrightarrow> found (cs @ cs')"
    and special: "\<And>k node st. node \<in> T \<Longrightarrow> node \<in> graph_nodes plugins \<Longrightarrow> dfs_inv st \<Longrightarrow>
        T \<inter> visited st = {} \<Longrightarrow> card (graph_nodes plugins - visited st) \<le> k \<Longrightarrow>
        \<exists>st'. dfs k neighbors node st = Inr st' \<and> dfs_post node st st' \<and> found (cycles st')"
  shows "\<exists>cs. detect_circular_dependencies depth neighbors plugins = Inr cs \<and>
      (T \<inter> set (map fst plugins) = {} \<or> found cs)"
proof -
  let ?N = "graph_nodes plugins"
  let ?st0 = "\<lparr>cycles = [], visited = {}, rec_stack = {}, path = []\<rparr>"
  have fin: "finite ?N" by (rule finite_graph_nodes)
  have closed: "set (neighbors n) \<subseteq> ?N" if "n \<in> ?N" for n
    using order edges_graph_nodes [of plugins n] by (simp add: iteration_of_def)
  have call: "\<exists>st'. dfs depth neighbors node st = Inr st' \<and> dfs_post node st st' \<and>
      cycle_inv T found st'"
    if "dfs_inv st" "cycle_inv T found st" "node \<in> ?N" "node \<notin> visited st"
      "card (?N - visited st) \<le> depth" for node st
    using dfs_total [of ?N neighbors found T, OF fin closed mono special that] .
  have "dfs_inv ?st0" by (simp add: dfs_inv_def)
  moreover have "cycle_inv T found ?st0" by (simp add: cycle_inv_def)
  moreover have "card (?N - visited ?st0) \<le> depth" using depth by simp
  ultimately obtain st' where st': "dfs_roots depth neighbors (map fst plugins) ?st0 = Inr st'"
      "cycle_inv T found st'" "set (map fst plugins) \<subseteq> visited st'"
    using dfs_roots_total [of ?N T found depth neighbors ?st0 "map fst plugins", OF fin call]
      keys_graph_nodes [of plugins]
    by blast
  from st'(2,3) have "T \<inter> set (map fst plugins) = {} \<or> found (cycles st')"
    by (auto simp: cycle_inv_def)
  with st'(1) show ?thesis by (simp add: detect_circular_dependencies_def)
qed

lemma card_three:
  assumes "finite N" "{X, Y, Z} \<subseteq> N - V" "X \<noteq> Y" "Y \<noteq> Z" "X \<noteq> Z" "card (N - V) \<le> k"
  shows "\<exists>k'. k = Suc (Suc (Suc k'))"
proof -
  have "card {X, Y, Z} \<le> card (N - V)" using assms(1,2) by (intro card_mono) auto
  moreover have "card {X, Y, Z} = 3" using assms(3-5) by simp
  ultimately have "3 \<le> k" using assms(6) by simp
  then show ?thesis by presburger
qed

lemma triangle_special:
  assumes g: "neighbors A = [B]" "neighbors B = [C]" "neighbors C = [A]"
    and d: "A \<noteq> B" "B \<noteq> C" "A \<noteq> C"
    and fin: "finite N" and sub: "{A, B, C} \<subseteq> N"
    and node: "node \<in> {A, B, C}" and inv: "dfs_inv st"
    and unv: "{A, B, C} \<inter> visited st = {}"
    and card: "card (N - visited st) \<le> k"
  shows "\<exists>st'. dfs k neighbors node st = Inr st' \<and> dfs_post node st st' \<and>
      (\<exists>c \<in> set (cycles st'). c = [A, B, C, A] \<or> c = [B, C, A, B] \<or> c = [C, A, B, C])"
proof -
  from unv have u: "A \<notin> visited st" "B \<notin> visited st" "C \<notin> visited st" by auto
  with sub have "{A, B, C} \<subseteq> N - visited st" by auto
  from card_three [OF fin this d card] obtain k' where k: "k = Suc (Suc (Suc k'))" by blast
  from node consider "node = A" | "node = B" | "node = C" by auto
  then show ?thesis
  proof cases
    case 1
    from triangle_dfs [OF g d inv u, of k']
    obtain st' where "dfs (Suc (Suc (Suc k'))) neighbors A st = Inr st'" "dfs_post A st st'"
        "cycles st' = cycles st @ [[A, B, C, A]]"
      by blast
    then have "dfs k neighbors node st = Inr st' \<and> dfs_post node st st' \<and>
        (\<exists>c \<in> set (cycles st'). c = [A, B, C, A] \<or> c = [B, C, A, B] \<or> c = [C, A, B, C])"
      unfolding 1 k by simp
    then show ?thesis ..
  next
    case 2
    from triangle_dfs [OF g(2,3,1) d(2) d(3) [symmetric] d(1) [symmetric] inv u(2,3,1), of k']
    obtain st' where "dfs (Suc (Suc (Suc k'))) neighbors B st = Inr st'" "dfs_post B st st'"
        "cycles st' = cycles st @ [[B, C, A, B]]"
      by blast
    then have "dfs k neighbors node st = Inr st' \<and> dfs_post node st st' \<and>
        (\<exists>c \<in> set (cycles st'). c = [A, B, C, A] \<or> c = [B, C, A, B] \<or> c = [C, A, B, C])"
      unfolding 2 k by simp
    then show ?thesis ..
  next
    case 3
    from triangle_dfs [OF g(3,1,2) d(3) [symmetric] d(1) d(2) [symmetric] inv u(3,1,2), of k']
    obtain st' where "dfs (Suc (Suc (Suc k'))) neighbors C st = Inr st'" "dfs_post C st st'"
        "cycles st' = cycles st @ [[C, A, B, C]]"
      by blast
    then have "dfs k neighbors node st = Inr st' \<and> dfs_post node st st' \<and>
        (\<exists>c \<in> set (cycles st'). c = [A, B, C, A] \<or> c = [B, C, A, B] \<or> c = [C, A, B, C])"
      unfolding 3 k by simp
    then show ?thesis ..
  qed
qed

lemma only_dependency:
  assumes keys: "distinct (map fst plugins)"
    and m: "map_of plugins A = Some mA" and deps: "m_dependencies mA = [dA]"
    and name: "dep_name dA = Some B" and B: "B \<noteq> []"
    and order: "iteration_of (fst (build_dependency_graph plugins)) neighbors"
  shows "neighbors A = [B]"
proof -
  have uniq: "m = mA" if "(A, m) \<in> set plugins" for m
    using map_of_is_SomeI [OF keys that] m by simp
  have mem: "(A, mA) \<in> set plugins" using m by (rule map_of_SomeD)
  have "fst (build_dependency_graph plugins) A = {B}"
  proof (rule set_eqI)
    fix b
    show "b \<in> fst (build_dependency_graph plugins) A \<longleftrightarrow> b \<in> {B}"
    proof
      assume "b \<in> fst (build_dependency_graph plugins) A"
      then obtain m d where md: "(A, m) \<in> set plugins" "d \<in> set (m_dependencies m)"
          "dep_name d = Some b"
        unfolding forward_edges by blast
      from uniq [OF md(1)] md(2) deps have "d = dA" by simp
      with md(3) name show "b \<in> {B}" by simp
    next
      assume "b \<in> {B}"
      then have b: "b = B" by simp
      have "dA \<in> set (m_dependencies mA)" using deps by simp
      with mem name B show "b \<in> fst (build_dependency_graph plugins) A"
        unfolding forward_edges b by blast
    qed
  qed
  with order have "set (neighbors A) = {B}" "distinct (neighbors A)"
    by (simp_all add: iteration_of_def)
  then show ?thesis by (rule singleton_list)
qed

lemma recorded_cycle_step:
  assumes "n \<in> visited st" "n \<in> rec_stack st" "path st = p @ n # q" "n \<notin> set p"
  shows "dfs_loop k g (n # rest) st =
      dfs_loop k g rest (st\<lparr>cycles := cycles st @ [n # q @ [n]]\<rparr>)"
proof -
  have "index_of (path st) n = Some (length p)"
    using assms(3,4) index_of_append [of n p q] by simp
  then show ?thesis using assms(1,2,3) by simp
qed

lemma triangle_found:
  assumes reg: "plugins = fst (load_plugins dir)"
    and mA: "map_of plugins A = Some mA" and mB: "map_of plugins B = Some mB"
    and mC: "map_of plugins C = Some mC"
    and d: "A \<noteq> B" "B \<noteq> C" "A \<noteq> C"
    and dA: "m_dependencies mA = [\<lparr>dep_name = Some B, dep_version = None\<rparr>]"
    and dB: "m_dependencies mB = [\<lparr>dep_name = Some C, dep_version = None\<rparr>]"
    and dC: "m_dependencies mC = [\<lparr>dep_name = Some A, dep_version = None\<rparr>]"
    and order: "iteration_of (fst (build_dependency_graph plugins)) neighbors"
    and depth: "card (graph_nodes plugins) \<le> depth"
  shows "\<exists>cs. detect_circular_dependencies depth neighbors plugins = Inr cs \<and>
      (\<exists>c \<in> set cs. c = [A, B, C, A] \<or> c = [B, C, A, B] \<or> c = [C, A, B, C])"
proof -
  let ?found = "\<lambda>cs. \<exists>c \<in> set cs. c = [A, B, C, A] \<or> c = [B, C, A, B] \<or> c = [C, A, B, C]"
  from load_plugins_keys [of dir] reg
  have keys: "distinct (map fst plugins)" and ne: "[] \<notin> set (map fst plugins)" by simp_all
  have inA: "A \<in> set (map fst plugins)" using map_of_SomeD [OF mA] by force
  have inB: "B \<in> set (map fst plugins)" using map_of_SomeD [OF mB] by force
  have inC: "C \<in> set (map fst plugins)" using map_of_SomeD [OF mC] by force
  from inA inB inC ne have n: "A \<noteq> []" "B \<noteq> []" "C \<noteq> []" by blast+
  have g: "neighbors A = [B]" "neighbors B = [C]" "neighbors C = [A]"
    using only_dependency [OF keys mA dA _ n(2) order]
      only_dependency [OF keys mB dB _ n(3) order]
      only_dependency [OF keys mC dC _ n(1) order]
    by simp_all
  have sub: "{A, B, C} \<subseteq> graph_nodes plugins"
    using inA inB inC keys_graph_nodes [of plugins] by auto
  have mono: "?found cs \<Longrightarrow> ?found (cs @ cs')" for cs cs' :: "string list list"
    by auto
  have special: "\<exists>st'. dfs k neighbors node st = Inr st' \<and> dfs_post node st st' \<and>
      ?found (cycles st')"
    if "node \<in> {A, B, C}" "node \<in> graph_nodes plugins" "dfs_inv st"
      "{A, B, C} \<inter> visited st = {}" "card (graph_nodes plugins - visited st) \<le> k"
    for k node st
    using triangle_special [OF g d finite_graph_nodes sub that(1,3,4,5)] .
  from detect_total [of plugins neighbors depth ?found "{A, B, C}", OF order depth mono special]
  obtain cs where cs: "detect_circular_dependencies depth neighbors plugins = Inr cs"
    "{A, B, C} \<inter> set (map fst plugins) = {} \<or> ?found cs"
    by blast
  from inA have "{A, B, C} \<inter> set (map fst plugins) \<noteq> {}" by blast
  with cs show ?thesis by blast
qed

text \<open>
  C3, as amended. Take the registry that any directory loads to, holding manifests under
  three different names \<open>A\<close>, \<open>B\<close> and \<open>C\<close>, each with one dependency declaration, on
  the next one and without a version constraint, beside whatever other manifests. With the
  adjacency sets iterated in any order, and as many nested calls allowed as the graph has
  nodes, \<open>detect_circular_dependencies\<close> returns, and one of the cycles it returns is
  \<open>[A, B, C, A]\<close> or a rotation of it. In the loop of \<open>dfs\<close>, a neighbour that is visited
  and on the stack is recorded as the path from its first occurrence on, followed by the
  neighbour once more.
\<close>

theorem detect_circular_dependencies_triangle:
  "(plugins = fst (load_plugins dir) \<and>
    map_of plugins A = Some mA \<and> map_of plugins B = Some mB \<and> map_of plugins C = Some mC \<and>
    A \<noteq> B \<and> B \<noteq> C \<and> A \<noteq> C \<and>
    m_dependencies mA = [\<lparr>dep_name = Some B, dep_version = None\<rparr>] \<and>
    m_dependencies mB = [\<lparr>dep_name = Some C, dep_version = None\<rparr>] \<and>
    m_dependencies mC = [\<lparr>dep_name = Some A, dep_version = None\<rparr>] \<and>
    iteration_of (fst (build_dependency_graph plugins)) neighbors \<and>
    card (graph_nodes plugins) \<le> depth \<longrightarrow>
    (\<exists>cs. detect_circular_dependencies depth neighbors plugins = Inr cs \<and>
       (\<exists>c \<in> set cs. c = [A, B, C, A] \<or> c = [B, C, A, B] \<or> c = [C, A, B, C]))) \<and>
   (neighbor \<in> visited st \<and> neighbor \<in> rec_stack st \<and> path st = p @ neighbor # q \<and>
    neighbor \<notin> set p \<longrightarrow>
    dfs_loop k g (neighbor # rest) st =
      dfs_loop k g rest (st\<lparr>cycles := cycles st @ [neighbor # q @ [neighbor]]\<rparr>))"
proof -
  have first: "\<exists>cs. detect_circular_dependencies depth neighbors plugins = Inr cs \<and>
       (\<exists>c \<in> set cs. c = [A, B, C, A] \<or> c = [B, C, A, B] \<or> c = [C, A, B, C])"
    if "plugins = fst (load_plugins dir)"
      "map_of plugins A = Some mA" "map_of plugins B = Some mB" "map_of plugins C = Some mC"
      "A \<noteq> B" "B \<noteq> C" "A \<noteq> C"
      "m_dependencies mA = [\<lparr>dep_name = Some B, dep_version = None\<rparr>]"
      "m_dependencies mB = [\<lparr>dep_name = Some C, dep_version = None\<rparr>]"
      "m_dependencies mC = [\<lparr>dep_name = Some A, dep_version = None\<rparr>]"
      "iteration_of (fst (build_dependency_graph plugins)) neighbors"
      "card (graph_nodes plugins) \<le> depth"
    using that by (rule triangle_found)
  have second: "dfs_loop k g (neighbor # rest) st =
      dfs_loop k g rest (st\<lparr>cycles := cycles st @ [neighbor # q @ [neighbor]]\<rparr>)"
    if "neighbor \<in> visited st" "neighbor \<in> rec_stack st" "path st = p @ neighbor # q"
      "neighbor \<notin> set p"
    using that by (rule recorded_cycle_step)
  from first second show ?thesis by blast
qed

theorem detect_circular_dependencies_triangle_witness:
  "(\<exists>cs. detect_circular_dependencies 3
       (\<lambda>n. if n = ''A'' then [''B''] else if n = ''B'' then [''C'']
             else if n = ''C'' then [''A''] else [])
       (fst (load_plugins (Directory
          [(''a.potion'', Some \<lparr>m_name = Some ''A'', m_version = Some ''1.0.0'',
              m_dependencies = [\<lparr>dep_name = Some ''B'', dep_version = None\<rparr>]\<rparr>),
           (''b.potion'', Some \<lparr>m_name = Some ''B'', m_version = Some ''1.0.0'',
              m_dependencies = [\<lparr>dep_name = Some ''C'', dep_version = None\<rparr>]\<rparr>),
           (''c.potion'', Some \<lparr>m_name = Some ''C'', m_version = Some ''1.0.0'',
              m_dependencies = [\<lparr>dep_name = Some ''A'', dep_version = None\<rparr>]\<rparr>)]))) = Inr cs \<and>
     (\<exists>c \<in> set cs. c = [''A'', ''B'', ''C'', ''A''] \<or> c = [''B'', ''C'', ''A'', ''B''] \<or>
        c = [''C'', ''A'', ''B'', ''C''])) \<and>
   dfs_loop 0 (\<lambda>n. []) [''A'']
     \<lparr>cycles = [], visited = {''A'', ''B''}, rec_stack = {''A'', ''B''}, path = [''A'', ''B'']\<rparr> =
   Inr \<lparr>cycles = [[''A'', ''B'', ''A'']], visited = {''A'', ''B''}, rec_stack = {''A'', ''B''},
        path = [''A'', ''B'']\<rparr>"
proof -
  let ?mA = "\<lparr>m_name = Some ''A'', m_version = Some ''1.0.0'',
              m_dependencies = [\<lparr>dep_name = Some ''B'', dep_version = None\<rparr>]\<rparr>"
  let ?mB = "\<lparr>m_name = Some ''B'', m_version = Some ''1.0.0'',
              m_dependencies = [\<lparr>dep_name = Some ''C'', dep_version = None\<rparr>]\<rparr>"
  let ?mC = "\<lparr>m_name = Some ''C'', m_version = Some ''1.0.0'',
              m_dependencies = [\<lparr>dep_name = Some ''A'', dep_version = None\<rparr>]\<rparr>"
  let ?dir = "Directory [(''a.potion'', Some ?mA), (''b.potion'', Some ?mB), (''c.potion'', Some ?mC)]"
  let ?plugins = "fst (load_plugins ?dir)"
  let ?nb = "\<lambda>n. if n = ''A'' then [''B''] else if n = ''B'' then [''C'']
             else if n = ''C'' then [''A''] else []"
  let ?st = "\<lparr>cycles = [], visited = {''A'', ''B''}, rec_stack = {''A'', ''B''},
      path = [''A'', ''B'']\<rparr>"
  have registry: "?plugins = [(''A'', ?mA), (''B'', ?mB), (''C'', ?mC)]" by simp
  have order: "iteration_of (fst (build_dependency_graph ?plugins)) ?nb"
    unfolding registry by (auto simp: iteration_of_def build_dependency_graph_def)
  have nodes: "card (graph_nodes ?plugins) \<le> 3"
    unfolding registry by (simp add: graph_nodes_def List.map_filter_def card_insert_if)
  have hyp1: "?plugins = fst (load_plugins ?dir) \<and>
    map_of ?plugins ''A'' = Some ?mA \<and> map_of ?plugins ''B'' = Some ?mB \<and>
    map_of ?plugins ''C'' = Some ?mC \<and>
    ''A'' \<noteq> ''B'' \<and> ''B'' \<noteq> ''C'' \<and> ''A'' \<noteq> ''C'' \<and>
    m_dependencies ?mA = [\<lparr>dep_name = Some ''B'', dep_version = None\<rparr>] \<and>
    m_dependencies ?mB = [\<lparr>dep_name = Some ''C'', dep_version = None\<rparr>] \<and>
    m_dependencies ?mC = [\<lparr>dep_name = Some ''A'', dep_version = None\<rparr>] \<and>
    iteration_of (fst (build_dependency_graph ?plugins)) ?nb \<and>
    card (graph_nodes ?plugins) \<le> 3"
    using order nodes by simp
  have hyp2: "''A'' \<in> visited ?st \<and> ''A'' \<in> rec_stack ?st \<and> path ?st = [] @ ''A'' # [''B''] \<and>
    ''A'' \<notin> set []"
    by simp
  note inst = detect_circular_dependencies_triangle
    [where plugins = ?plugins and dir = ?dir and A = "''A''" and B = "''B''" and C = "''C''"
       and mA = ?mA and mB = ?mB and mC = ?mC and neighbors = ?nb and depth = 3
       and neighbor = "''A''" and st = ?st and p = "[]" and q = "[''B'']" and k = 0
       and g = "\<lambda>n. []" and rest = "[]"]
  from inst hyp1
  have a: "\<exists>cs. detect_circular_dependencies 3 ?nb ?plugins = Inr cs \<and>
     (\<exists>c \<in> set cs. c = [''A'', ''B'', ''C'', ''A''] \<or> c = [''B'', ''C'', ''A'', ''B''] \<or>
        c = [''C'', ''A'', ''B'', ''C''])"
    by blast
  from inst hyp2
  have "dfs_loop 0 (\<lambda>n. []) [''A''] ?st =
      dfs_loop 0 (\<lambda>n. []) [] (?st\<lparr>cycles := cycles ?st @ [''A'' # [''B''] @ [''A'']]\<rparr>)"
    by blast
  then have b: "dfs_loop 0 (\<lambda>n. []) [''A''] ?st =
      Inr \<lparr>cycles = [[''A'', ''B'', ''A'']], visited = {''A'', ''B''}, rec_stack = {''A'', ''B''},
        path = [''A'', ''B'']\<rparr>"
    by simp
  from a b show ?thesis by blast
qed

text \<open>
  C3, as stated, fails when \<open>A\<close> declares a second dependency: \<open>A\<close> depends on \<open>B\<close> and
  on \<open>D\<close>, \<open>B\<close> on \<open>C\<close>, \<open>C\<close> on \<open>A\<close>, and \<open>D\<close> on \<open>C\<close>. When the set of the
  dependencies of \<open>A\<close> is iterated with \<open>D\<close> first, the only cycle returned is
  \<open>[A, D, C, A]\<close>: \<open>C\<close> is visited and off the stack when \<open>B\<close> reaches it.
\<close>

theorem detect_circular_dependencies_other_path_counterexample:
  "iteration_of
     (fst (build_dependency_graph (fst (load_plugins (Directory
        [(''a.potion'', Some \<lparr>m_name = Some ''A'', m_version = Some ''1.0.0'',
            m_dependencies = [\<lparr>dep_name = Some ''B'', dep_version = None\<rparr>,
                              \<lparr>dep_name = Some ''D'', dep_version = None\<rparr>]\<rparr>),
         (''b.potion'', Some \<lparr>m_name = Some ''B'', m_version = Some ''1.0.0'',
            m_dependencies = [\<lparr>dep_name = Some ''C'', dep_version = None\<rparr>]\<rparr>),
         (''c.potion'', Some \<lparr>m_name = Some ''C'', m_version = Some ''1.0.0'',
            m_dependencies = [\<lparr>dep_name = Some ''A'', dep_version = None\<rparr>]\<rparr>),
         (''d.potion'', Some \<lparr>m_name = Some ''D'', m_version = Some ''1.0.0'',
            m_dependencies = [\<lparr>dep_name = Some ''C'', dep_version = None\<rparr>]\<rparr>)])))))
     (\<lambda>n. if n = ''A'' then [''D'', ''B''] else if n = ''B'' then [''C'']
           else if n = ''C'' then [''A''] else if n = ''D'' then [''C''] else []) \<and>
   card (graph_nodes (fst (load_plugins (Directory
        [(''a.potion'', Some \<lparr>m_name = Some ''A'', m_version = Some ''1.0.0'',
            m_dependencies = [\<lparr>dep_name = Some ''B'', dep_version = None\<rparr>,
                              \<lparr>dep_name = Some ''D'', dep_version = None\<rparr>]\<rparr>),
         (''b.potion'', Some \<lparr>m_name = Some ''B'', m_version = Some ''1.0.0'',
            m_dependencies = [\<lparr>dep_name = Some ''C'', dep_version = None\<rparr>]\<rparr>),
         (''c.potion'', Some \<lparr>m_name = Some ''C'', m_version = Some ''1.0.0'',
            m_dependencies = [\<lparr>dep_name = Some ''A'', dep_version = None\<rparr>]\<rparr>),
         (''d.potion'', Some \<lparr>m_name = Some ''D'', m_version = Some ''1.0.0'',
            m_dependencies = [\<lparr>dep_name = Some ''C'', dep_version = None\<rparr>]\<rparr>)])))) = 4 \<and>
   detect_circular_dependencies 4
     (\<lambda>n. if n = ''A'' then [''D'', ''B''] else if n = ''B'' then [''C'']
           else if n = ''C'' then [''A''] else if n = ''D'' then [''C''] else [])
     (fst (load_plugins (Directory
        [(''a.potion'', Some \<lparr>m_name = Some ''A'', m_version = Some ''1.0.0'',
            m_dependencies = [\<lparr>dep_name = Some ''B'', dep_version = None\<rparr>,
                              \<lparr>dep_name = Some ''D'', dep_version = None\<rparr>]\<rparr>),
         (''b.potion'', Some \<lparr>m_name = Some ''B'', m_version = Some ''1.0.0'',
            m_dependencies = [\<lparr>dep_name = Some ''C'', dep_version = None\<rparr>]\<rparr>),
         (''c.potion'', Some \<lparr>m_name = Some ''C'', m_version = Some ''1.0.0'',
            m_dependencies = [\<lparr>dep_name = Some ''A'', dep_version = None\<rparr>]\<rparr>),
         (''d.potion'', Some \<lparr>m_name = Some ''D'', m_version = Some ''1.0.0'',
            m_dependencies = [\<lparr>dep_name = Some ''C'', dep_version = None\<rparr>]\<rparr>)]))) =
   Inr [[''A'', ''D'', ''C'', ''A'']]"
proof -
  let ?mA = "\<lparr>m_name = Some ''A'', m_version = Some ''1.0.0'',
            m_dependencies = [\<lparr>dep_name = Some ''B'', dep_version = None\<rparr>,
                              \<lparr>dep_name = Some ''D'', dep_version = None\<rparr>]\<rparr>"
  let ?mB = "\<lparr>m_name = Some ''B'', m_version = Some ''1.0.0'',
            m_dependencies = [\<lparr>dep_name = Some ''C'', dep_version = None\<rparr>]\<rparr>"
  let ?mC = "\<lparr>m_name = Some ''C'', m_version = Some ''1.0.0'',
            m_dependencies = [\<lparr>dep_name = Some ''A'', dep_version = None\<rparr>]\<rparr>"
  let ?mD = "\<lparr>m_name = Some ''D'', m_version = Some ''1.0.0'',
            m_dependencies = [\<lparr>dep_name = Some ''C'', dep_version = None\<rparr>]\<rparr>"
  let ?plugins = "fst (load_plugins (Directory [(''a.potion'', Some ?mA),
      (''b.potion'', Some ?mB), (''c.potion'', Some ?mC), (''d.potion'', Some ?mD)]))"
  let ?nb = "\<lambda>n. if n = ''A'' then [''D'', ''B''] else if n = ''B'' then [''C'']
           else if n = ''C'' then [''A''] else if n = ''D'' then [''C''] else []"
  have registry: "?plugins = [(''A'', ?mA), (''B'', ?mB), (''C'', ?mC), (''D'', ?mD)]" by simp
  have "iteration_of (fst (build_dependency_graph ?plugins)) ?nb"
    unfolding registry by (auto simp: iteration_of_def build_dependency_graph_def)
  moreover have "card (graph_nodes ?plugins) = 4"
    unfolding registry by (simp add: graph_nodes_def List.map_filter_def card_insert_if)
  moreover have "detect_circular_dependencies 4 ?nb ?plugins = Inr [[''A'', ''D'', ''C'', ''A'']]"
    unfolding registry by (simp add: detect_circular_dependencies_def eval_nat_numeral)
  ultimately show ?thesis by blast
qed

subsection \<open>Resolution\<close>







end
